theory Spec2Isabelle
  imports Main "HOL-Library.AList"
begin

section \<open>The type graph (package jsontypes)\<close>

text \<open>
  \<^verbatim>\<open>type Kind string\<close> and \<^verbatim>\<open>type TypeName string\<close> are Go string types: any string is a
  value of them, the named constants are only the ones the extractor produces. A kind is
  therefore a string here as well, and the constants are abbreviations of the literals
  of the source (\<open>Int\<close> is written \<open>Int_kind\<close>: HOL reads \<open>Int\<close> as set intersection).
\<close>

type_synonym Kind = string
type_synonym TypeName = string

abbreviation Unknown :: Kind where "Unknown \<equiv> ''unknown''"
abbreviation Bool :: Kind where "Bool \<equiv> ''bool''"
abbreviation Int_kind :: Kind where "Int_kind \<equiv> ''int''"
abbreviation Int8 :: Kind where "Int8 \<equiv> ''int8''"
abbreviation Int16 :: Kind where "Int16 \<equiv> ''int16''"
abbreviation Int32 :: Kind where "Int32 \<equiv> ''int32''"
abbreviation Int64 :: Kind where "Int64 \<equiv> ''int64''"
abbreviation Uint :: Kind where "Uint \<equiv> ''uint''"
abbreviation Uint8 :: Kind where "Uint8 \<equiv> ''uint8''"
abbreviation Uint16 :: Kind where "Uint16 \<equiv> ''uint16''"
abbreviation Uint32 :: Kind where "Uint32 \<equiv> ''uint32''"
abbreviation Uint64 :: Kind where "Uint64 \<equiv> ''uint64''"
abbreviation Uintptr :: Kind where "Uintptr \<equiv> ''uintptr''"
abbreviation Float32 :: Kind where "Float32 \<equiv> ''float32''"
abbreviation Float64 :: Kind where "Float64 \<equiv> ''float64''"
abbreviation Complex64 :: Kind where "Complex64 \<equiv> ''complex64''"
abbreviation Complex128 :: Kind where "Complex128 \<equiv> ''complex128''"
abbreviation Array :: Kind where "Array \<equiv> ''array''"
abbreviation Chan :: Kind where "Chan \<equiv> ''chan''"
abbreviation Func :: Kind where "Func \<equiv> ''func''"
abbreviation Interface :: Kind where "Interface \<equiv> ''interface''"
abbreviation Map :: Kind where "Map \<equiv> ''map''"
abbreviation Ptr :: Kind where "Ptr \<equiv> ''ptr''"
abbreviation Slice :: Kind where "Slice \<equiv> ''slice''"
abbreviation String :: Kind where "String \<equiv> ''string''"
abbreviation Struct :: Kind where "Struct \<equiv> ''struct''"
abbreviation UnsafePointer :: Kind where "UnsafePointer \<equiv> ''unsafepointer''"

text \<open>
  A \<^verbatim>\<open>*Type\<close> is an address into the store of Type nodes, or nil. The checker keys its
  visited set by these pointers, so two nodes with equal contents at different addresses
  are different keys, as in Go.
\<close>

type_synonym addr = nat
type_synonym ptr = "addr option"

record Field =
  Name :: string
  Type :: ptr
  Anonymous :: bool
  Tag :: string

record Method =
  PtrReceiver :: bool
  Name :: string
  Type :: ptr

text \<open>
  \<^verbatim>\<open>Methods map[string]*Method\<close> is an association list: the list order stands for the
  order in which one \<^verbatim>\<open>range\<close> over the map yields its entries, which Go leaves open. A
  Go map has each key once; lookups go through \<open>map_of\<close>. \<^verbatim>\<open>Fields []*Field\<close> is a list of
  possibly nil pointers to fields; nothing compares fields or methods by identity, so
  they are held by value. The unexported \<^verbatim>\<open>goType\<close> is read by the extractor only.
\<close>

record Type =
  Name :: TypeName
  Kind :: Kind
  Methods :: "(string \<times> Method option) list"
  Fields :: "Field option list"
  Elem :: ptr
  Key :: ptr
  In :: "ptr list"
  Out :: "ptr list"
  Variadic :: bool

type_synonym heap = "Type list"

text \<open>
  \<^verbatim>\<open>Types map[TypeName]*Type\<close> is an association list as well, read through \<open>map_of\<close>; its
  order is the order of the one \<^verbatim>\<open>range\<close> over it, in \<^verbatim>\<open>PruneMethods\<close>.
\<close>

record Info =
  Types :: "(TypeName \<times> ptr) list"

text \<open>
  What stops a traversal other than a return. \<open>NilDereference\<close> is Go's run-time panic
  on a field access through nil, \<open>DerefPanic\<close> the explicit panic of \<^verbatim>\<open>Deref\<close>,
  \<open>IndexOutOfRange\<close> Go's panic on a slice index. \<open>Dangling\<close> (an address beyond the
  store) cannot arise in Go and \<open>OutOfFuel\<close> is the recursion budget of the model.
\<close>

datatype failure =
    NilDereference
  | DerefPanic TypeName
  | IndexOutOfRange
  | Dangling
  | OutOfFuel

definition load :: "heap \<Rightarrow> ptr \<Rightarrow> failure + Type" where
  "load h p = (case p of
       None \<Rightarrow> Inl NilDereference
     | Some a \<Rightarrow> if a < length h then Inr (h ! a) else Inl Dangling)"

text \<open>
  \<^verbatim>\<open>
  func (info *Info) Deref(t *Type) *Type {
      if dt := info.Types[t.Name]; dt != nil { return dt }
      if t.Kind == Unknown { panic("deref type with unknown name " + t.Name) }
      return t
  }
  \<close>
  A missing key and a key stored with nil both read as nil.
\<close>

definition Deref :: "heap \<Rightarrow> Info \<Rightarrow> ptr \<Rightarrow> failure + ptr" where
  "Deref h info t = (case load h t of
       Inl e \<Rightarrow> Inl e
     | Inr tv \<Rightarrow>
        (case map_of (Types info) (Type.Name tv) of
           Some (Some dt) \<Rightarrow> Inr (Some dt)
         | _ \<Rightarrow> if Kind tv = Unknown then Inl (DerefPanic (Type.Name tv)) else Inr t))"

fun fieldByName :: "Field option list \<Rightarrow> string \<Rightarrow> failure + Field option" where
  "fieldByName [] name = Inr None"
| "fieldByName (None # fs) name = Inl NilDereference"
| "fieldByName (Some f # fs) name =
     (if Field.Name f = name then Inr (Some f) else fieldByName fs name)"

definition FieldByName :: "Type \<Rightarrow> string \<Rightarrow> failure + Field option" where
  "FieldByName t name = fieldByName (Fields t) name"

section \<open>The compatibility checker (package apicompat)\<close>

text \<open>
  \<^verbatim>\<open>errorf\<close> appends \<^verbatim>\<open>fmt.Errorf(path+": "+fmt.Sprintf(msg, a...))\<close>. The appended error is
  kept here as the path with the message's format and arguments, one constructor for each
  format string of the source; the rendering to text by \<^verbatim>\<open>fmt\<close> is not modelled.
\<close>

datatype violation =
    NilTypeFound
  | IncompatibleKinds Kind Kind
  | DifferingParameterCount nat nat
  | VariadicStatusChanged
  | DifferingOutParameterCount nat nat
  | FieldIsMissing
  | MethodIsMissing string
  | ValueToPointerReceiver string
  | IncompatibleTag string string string

type_synonym error = "string \<times> violation"

text \<open>
  The fields of \<^verbatim>\<open>checkContext\<close>, and one more: \<open>visits\<close> is a ghost counter of the calls
  of \<^verbatim>\<open>check\<close> that got past the visited test. No branch reads it.
\<close>

record checkContext =
  info0 :: Info
  info1 :: Info
  ignore :: "heap \<Rightarrow> Info \<Rightarrow> ptr \<Rightarrow> bool"
  checked :: "ptr set"
  errors :: "error list"
  visits :: nat

definition errorf :: "checkContext \<Rightarrow> string \<Rightarrow> violation \<Rightarrow> checkContext" where
  "errorf ctxt path msg = ctxt\<lparr>errors := errors ctxt @ [(path, msg)]\<rparr>"

subsection \<open>Struct tags\<close>

text \<open>
  The scan of a quoted value in \<^verbatim>\<open>allTags\<close>:
  \<^verbatim>\<open>for i < len(tag) && tag[i] != '"' { if tag[i] == '\\' { i++ }; i++ }\<close>
\<close>

function scanQuoted :: "string \<Rightarrow> nat \<Rightarrow> nat" where
  "scanQuoted tag i =
     (if i < length tag \<and> tag ! i \<noteq> CHR 0x22
      then scanQuoted tag (if tag ! i = CHR 0x5C then i + 2 else i + 1)
      else i)"
  by pat_completeness auto
termination
  by (relation "measure (\<lambda>(tag, i). length tag - i)") auto

declare scanQuoted.simps [simp del]

text \<open>
  \<^verbatim>\<open>allTags\<close> parses a struct tag into a map from key to value. The map under
  construction is an association list with each key once (\<open>AList.update\<close> overwrites the
  value of a key already present, as \<^verbatim>\<open>all[name] = value\<close> does); its order, the order in
  which the keys were first met, stands for the order in which a \<^verbatim>\<open>range\<close> over the map
  yields them, which Go leaves open. \<^verbatim>\<open>strconv.Unquote\<close> belongs
  to Go's standard library, not to this repository: the parser takes it as the
  parameter \<open>unq\<close>, the function from the quoted text to the value that
  \<^verbatim>\<open>value, _ := strconv.Unquote(qvalue)\<close> leaves in \<^verbatim>\<open>value\<close>.
\<close>

function allTags_loop ::
  "(string \<Rightarrow> string) \<Rightarrow> string \<Rightarrow> (string \<times> string) list \<Rightarrow> (string \<times> string) list" where
  "allTags_loop unq tag all =
     (if tag = [] then all
      else
        let tag1 = dropWhile (\<lambda>c. c = CHR '' '') tag in
        if tag1 = [] then all
        else
          let i = length (takeWhile (\<lambda>c. c \<noteq> CHR '' '' \<and> c \<noteq> CHR '':'' \<and> c \<noteq> CHR 0x22) tag1) in
          if i + 1 \<ge> length tag1 \<or> tag1 ! i \<noteq> CHR '':'' \<or> tag1 ! (i + 1) \<noteq> CHR 0x22 then all
          else
            let name = take i tag1;
                tag2 = drop (i + 1) tag1;
                j = scanQuoted tag2 1 in
            if j \<ge> length tag2 then all
            else
              let qvalue = take (j + 1) tag2;
                  tag3 = drop (j + 1) tag2 in
              allTags_loop unq tag3 (AList.update name (unq qvalue) all))"
  by pat_completeness auto
termination
proof (relation "measure (\<lambda>(unq, tag, all). length tag)", goal_cases)
  case 1
  show ?case by simp
next
  case (2 unq tag all tag1 i name tag2 j qvalue tag3)
  have "length tag1 \<le> length tag"
    using 2(2) by (simp add: length_dropWhile_le)
  moreover have "length tag3 < length tag1"
    using 2 by simp
  ultimately show ?case by simp
qed

declare allTags_loop.simps [simp del]

definition allTags :: "(string \<Rightarrow> string) \<Rightarrow> string \<Rightarrow> (string \<times> string) list" where
  "allTags unq tag = allTags_loop unq tag []"

text \<open>
  A stand-in for \<^verbatim>\<open>strconv.Unquote\<close> in closed evaluations. On a double-quoted text whose
  body is printable ASCII without backslash or double quote, \<^verbatim>\<open>strconv.Unquote\<close> returns
  the body, and so does the stand-in; on every other text the stand-in gives the empty
  string, the value left behind by a syntax error, and is not meant to be read there.
\<close>

definition Unquote_plain :: "string \<Rightarrow> string" where
  "Unquote_plain q =
     (if 2 \<le> length q \<and> hd q = CHR 0x22 \<and> last q = CHR 0x22 \<and>
         (\<forall>c \<in> set (butlast (tl q)).
            (32::nat) \<le> of_char c \<and> of_char c \<le> (126::nat) \<and> c \<noteq> CHR 0x22 \<and> c \<noteq> CHR 0x5C)
      then butlast (tl q) else [])"

text \<open>
  \<^verbatim>\<open>
  func (ctxt *checkContext) checkTagCompat(tag0, tag1 string, path string) {
      tags0, tags1 := allTags(tag0), allTags(tag1)
      for name, val0 := range tags0 {
          if val1 := tags1[name]; val1 != val0 {
              ctxt.errorf(path, "incompatible tag %s:%q vs %s:%q", name, val0, name, val1)
          }
      }
  }
  \<close>
  \<^verbatim>\<open>tags1[name]\<close> is the empty string when the key is missing.
\<close>

definition tagValue :: "(string \<times> string) list \<Rightarrow> string \<Rightarrow> string" where
  "tagValue tags name = (case map_of tags name of None \<Rightarrow> [] | Some v \<Rightarrow> v)"

definition checkTag ::
  "string \<Rightarrow> (string \<times> string) list \<Rightarrow> checkContext \<Rightarrow> string \<times> string \<Rightarrow> checkContext" where
  "checkTag path tags1 ctxt entry =
     (let name = fst entry; val0 = snd entry; val1 = tagValue tags1 name in
      if val1 \<noteq> val0 then errorf ctxt path (IncompatibleTag name val0 val1) else ctxt)"

definition checkTagCompat ::
  "(string \<Rightarrow> string) \<Rightarrow> checkContext \<Rightarrow> string \<Rightarrow> string \<Rightarrow> string \<Rightarrow> checkContext" where
  "checkTagCompat unq ctxt tag0 tag1 path =
     (let tags0 = allTags unq tag0; tags1 = allTags unq tag1 in
      foldl (checkTag path tags1) ctxt tags0)"


subsection \<open>The traversal\<close>

text \<open>
  \<^verbatim>\<open>%d\<close> of a non-negative \<^verbatim>\<open>int\<close>: the decimal digits.
\<close>

fun decimal :: "nat \<Rightarrow> string" where
  "decimal n =
     (if n < 10 then [char_of (48 + n)]
      else decimal (n div 10) @ [char_of (48 + n mod 10)])"

declare decimal.simps [simp del]

text \<open>
  \<^verbatim>\<open>ctxt.checked[t0] = true; ctxt.checked[t1] = true\<close>, and the ghost counter.
\<close>

definition mark :: "checkContext \<Rightarrow> ptr \<Rightarrow> ptr \<Rightarrow> checkContext" where
  "mark ctxt t0 t1 =
     ctxt\<lparr>checked := insert t1 (insert t0 (checked ctxt)), visits := Suc (visits ctxt)\<rparr>"

type_synonym result = "failure + checkContext"
type_synonym recursion = "checkContext \<Rightarrow> ptr \<Rightarrow> ptr \<Rightarrow> string \<Rightarrow> result"

text \<open>
  \<^verbatim>\<open>check\<close> calls itself from inside its loops. Each loop and the kind switch is a
  function of its own here, with the recursive call \<^verbatim>\<open>ctxt.check\<close> as the parameter \<open>chk\<close>;
  \<open>check\<close> below closes the recursion. The context is passed in and returned, a panic
  ends the traversal with \<open>Inl\<close>.

  \<^verbatim>\<open>for i := range t0.In { ctxt.check(t0.In[i], t1.In[i], fmt.Sprintf("%s(param %d)", path, i)) }\<close>
  (and the same loop over \<^verbatim>\<open>Out\<close>), entered only when both slices have the same length.
\<close>

fun checkParams ::
  "recursion \<Rightarrow> checkContext \<Rightarrow> ptr list \<Rightarrow> ptr list \<Rightarrow> string \<Rightarrow> nat \<Rightarrow> result" where
  "checkParams chk ctxt [] ts1 path i = Inr ctxt"
| "checkParams chk ctxt (t0 # ts0) [] path i = Inl IndexOutOfRange"
| "checkParams chk ctxt (t0 # ts0) (t1 # ts1) path i =
     (case chk ctxt t0 t1 (path @ ''(param '' @ decimal i @ '')'') of
        Inl e \<Rightarrow> Inl e
      | Inr ctxt \<Rightarrow> checkParams chk ctxt ts0 ts1 path (Suc i))"




text \<open>
  \<^verbatim>\<open>
  for _, f0 := range t0.Fields {
      path := path + "." + f0.Name
      f1 := t1.FieldByName(f0.Name)
      if f1 == nil { ctxt.errorf(path, "field is missing"); continue }
      ctxt.check(f0.Type, f1.Type, path)
      ctxt.checkTagCompat(f0.Tag, f1.Tag, path)
  }
  \<close>
\<close>

fun checkFields ::
  "recursion \<Rightarrow> (string \<Rightarrow> string) \<Rightarrow> checkContext \<Rightarrow> Field option list \<Rightarrow> Type \<Rightarrow> string \<Rightarrow> result" where
  "checkFields chk unq ctxt [] v1 path = Inr ctxt"
| "checkFields chk unq ctxt (None # fs) v1 path = Inl NilDereference"
| "checkFields chk unq ctxt (Some f0 # fs) v1 path =
     (case FieldByName v1 (Field.Name f0) of
        Inl e \<Rightarrow> Inl e
      | Inr None \<Rightarrow>
          checkFields chk unq (errorf ctxt (path @ ''.'' @ Field.Name f0) FieldIsMissing) fs v1 path
      | Inr (Some f1) \<Rightarrow>
          (case chk ctxt (Field.Type f0) (Field.Type f1) (path @ ''.'' @ Field.Name f0) of
             Inl e \<Rightarrow> Inl e
           | Inr ctxt \<Rightarrow>
               checkFields chk unq
                 (checkTagCompat unq ctxt (Tag f0) (Tag f1) (path @ ''.'' @ Field.Name f0))
                 fs v1 path))"

text \<open>
  \<^verbatim>\<open>
  for name, m0 := range t0.Methods {
      m1, ok := t1.Methods[name]
      if !ok { ctxt.errorf(path, "method %s is missing", name); continue }
      if !m0.PtrReceiver && m1.PtrReceiver {
          ctxt.errorf(path, "method %s has changed from value to pointer receiver", name)
      }
      ctxt.check(m0.Type, m1.Type, path+"."+name)
  }
  \<close>
  A nil \<^verbatim>\<open>m0\<close> panics at \<^verbatim>\<open>m0.PtrReceiver\<close>, a nil \<^verbatim>\<open>m1\<close> at \<^verbatim>\<open>m1.PtrReceiver\<close> or at
  \<^verbatim>\<open>m1.Type\<close>.
\<close>

fun checkMethods ::
  "recursion \<Rightarrow> checkContext \<Rightarrow> (string \<times> Method option) list \<Rightarrow>
     (string \<times> Method option) list \<Rightarrow> string \<Rightarrow> result" where
  "checkMethods chk ctxt [] ms1 path = Inr ctxt"
| "checkMethods chk ctxt ((name, m0) # ms0) ms1 path =
     (case map_of ms1 name of
        None \<Rightarrow> checkMethods chk (errorf ctxt path (MethodIsMissing name)) ms0 ms1 path
      | Some m1 \<Rightarrow>
          (case m0 of
             None \<Rightarrow> Inl NilDereference
           | Some m0 \<Rightarrow>
               (case m1 of
                  None \<Rightarrow> Inl NilDereference
                | Some m1 \<Rightarrow>
                    (case chk (if \<not> PtrReceiver m0 \<and> PtrReceiver m1
                               then errorf ctxt path (ValueToPointerReceiver name) else ctxt)
                            (Method.Type m0) (Method.Type m1) (path @ ''.'' @ name) of
                       Inl e \<Rightarrow> Inl e
                     | Inr ctxt \<Rightarrow> checkMethods chk ctxt ms0 ms1 path))))"

text \<open>The \<^verbatim>\<open>case jsontypes.Func\<close> of the kind switch.\<close>

definition checkFunc :: "recursion \<Rightarrow> checkContext \<Rightarrow> Type \<Rightarrow> Type \<Rightarrow> string \<Rightarrow> result" where
  "checkFunc chk ctxt v0 v1 path =
     (case
        (if length (In v0) \<noteq> length (In v1)
         then Inr (errorf ctxt path (DifferingParameterCount (length (In v0)) (length (In v1))))
         else
           (case checkParams chk ctxt (In v0) (In v1) path 0 of
              Inl e \<Rightarrow> Inl e
            | Inr ctxt \<Rightarrow>
                Inr (if Variadic v0 \<noteq> Variadic v1
                     then errorf ctxt path VariadicStatusChanged else ctxt)))
      of
        Inl e \<Rightarrow> Inl e
      | Inr ctxt \<Rightarrow>
          if length (Out v0) \<noteq> length (Out v1)
          then Inr (errorf ctxt path
                      (DifferingOutParameterCount (length (Out v0)) (length (Out v1))))
          else checkParams chk ctxt (Out v0) (Out v1) path 0)"

text \<open>The \<^verbatim>\<open>switch t0.Kind\<close>.\<close>

definition checkKind ::
  "recursion \<Rightarrow> (string \<Rightarrow> string) \<Rightarrow> checkContext \<Rightarrow> Type \<Rightarrow> Type \<Rightarrow> string \<Rightarrow> result" where
  "checkKind chk unq ctxt v0 v1 path =
     (if Kind v0 = Array \<or> Kind v0 = Slice then
        chk ctxt (Elem v0) (Elem v1) (path @ ''[]'')
      else if Kind v0 = Chan then
        chk ctxt (Elem v0) (Elem v1) (''(<-'' @ path @ '')'')
      else if Kind v0 = Ptr then
        chk ctxt (Elem v0) (Elem v1) (''(*'' @ path @ '')'')
      else if Kind v0 = Map then
        (case chk ctxt (Key v0) (Key v1) (path @ ''[key]'') of
           Inl e \<Rightarrow> Inl e
         | Inr ctxt \<Rightarrow> chk ctxt (Elem v0) (Elem v1) (path @ ''[]''))
      else if Kind v0 = Func then checkFunc chk ctxt v0 v1 path
      else if Kind v0 = Struct then checkFields chk unq ctxt (Fields v0) v1 path
      else Inr ctxt)"

text \<open>
  The body of \<^verbatim>\<open>check\<close> in two parts. \<open>checkResolved\<close> is the part after the ignore test,
  from the nil test to the loop over the methods; its \<open>t0\<close> and \<open>t1\<close> are the pointers
  \<^verbatim>\<open>Deref\<close> returned. \<^verbatim>\<open>t0.Kind\<close> reads through them whether or not "nil type found" was
  recorded: the nil test has no return.
\<close>

definition checkResolved ::
  "recursion \<Rightarrow> (string \<Rightarrow> string) \<Rightarrow> heap \<Rightarrow> checkContext \<Rightarrow> ptr \<Rightarrow> ptr \<Rightarrow> string \<Rightarrow> result" where
  "checkResolved chk unq h ctxt t0 t1 path =
     (let ctxt = (if t0 = None \<or> t1 = None then errorf ctxt path NilTypeFound else ctxt) in
      (case load h t0 of
         Inl e \<Rightarrow> Inl e
       | Inr v0 \<Rightarrow>
      (case load h t1 of
         Inl e \<Rightarrow> Inl e
       | Inr v1 \<Rightarrow>
      if Kind v0 \<noteq> Kind v1
      then Inr (errorf ctxt path (IncompatibleKinds (Kind v0) (Kind v1)))
      else
        (case checkKind chk unq ctxt v0 v1 path of
           Inl e \<Rightarrow> Inl e
         | Inr ctxt \<Rightarrow> checkMethods chk ctxt (Methods v0) (Methods v1) path))))"

text \<open>
  \<open>checkStep\<close> is the part before it: the visited test, the marking, the two calls of
  \<^verbatim>\<open>Deref\<close> (after which the names \<open>t0\<close> and \<open>t1\<close> are the resolved pointers, as in the
  source) and the ignore test.
\<close>

definition checkStep ::
  "recursion \<Rightarrow> (string \<Rightarrow> string) \<Rightarrow> heap \<Rightarrow> checkContext \<Rightarrow> ptr \<Rightarrow> ptr \<Rightarrow> string \<Rightarrow> result" where
  "checkStep chk unq h ctxt t0 t1 path =
     (if t0 \<in> checked ctxt \<and> t1 \<in> checked ctxt then Inr ctxt
      else
        let ctxt = mark ctxt t0 t1 in
        (case Deref h (info0 ctxt) t0 of
           Inl e \<Rightarrow> Inl e
         | Inr t0 \<Rightarrow>
        (case Deref h (info1 ctxt) t1 of
           Inl e \<Rightarrow> Inl e
         | Inr t1 \<Rightarrow>
        if ignore ctxt h (info0 ctxt) t0 \<or> ignore ctxt h (info1 ctxt) t1 then Inr ctxt
        else checkResolved chk unq h ctxt t0 t1 path)))"

text \<open>
  The recursion, with a budget for its depth: \<open>check n\<close> is \<^verbatim>\<open>check\<close> cut off below \<open>n\<close>
  nested calls.
\<close>

fun check ::
  "nat \<Rightarrow> (string \<Rightarrow> string) \<Rightarrow> heap \<Rightarrow> checkContext \<Rightarrow> ptr \<Rightarrow> ptr \<Rightarrow> string \<Rightarrow> result" where
  "check 0 unq h ctxt t0 t1 path = Inl OutOfFuel"
| "check (Suc n) unq h ctxt t0 t1 path = checkStep (check n unq h) unq h ctxt t0 t1 path"

text \<open>
  \<^verbatim>\<open>
  func Check(info0, info1 *jsontypes.Info, t0, t1 *jsontypes.Type, ignore ...) error {
      ctxt := checkContext{info0: info0, info1: info1, ignore: ignore,
                           checked: make(map[*jsontypes.Type]bool)}
      ctxt.check(t0, t1, "")
      if len(ctxt.errors) > 0 { return &CheckError{Errors: ctxt.errors} }
      return nil
  }
  \<close>
  The depth budget is one more than the number of nodes of the store, which is never
  used up (\<open>check_fuel_enough\<close> and \<open>check_more_fuel\<close> below).
\<close>

record CheckError =
  Errors :: "error list"

definition newContext ::
  "Info \<Rightarrow> Info \<Rightarrow> (heap \<Rightarrow> Info \<Rightarrow> ptr \<Rightarrow> bool) \<Rightarrow> checkContext" where
  "newContext i0 i1 ign =
     \<lparr>info0 = i0, info1 = i1, ignore = ign, checked = {}, errors = [], visits = 0\<rparr>"

definition Check ::
  "(string \<Rightarrow> string) \<Rightarrow> heap \<Rightarrow> Info \<Rightarrow> Info \<Rightarrow> ptr \<Rightarrow> ptr \<Rightarrow> (heap \<Rightarrow> Info \<Rightarrow> ptr \<Rightarrow> bool) \<Rightarrow>
     failure + CheckError option" where
  "Check unq h i0 i1 t0 t1 ign =
     (case check (Suc (length h)) unq h (newContext i0 i1 ign) t0 t1 [] of
        Inl e \<Rightarrow> Inl e
      | Inr ctxt \<Rightarrow>
          Inr (if length (errors ctxt) > 0 then Some \<lparr>Errors = errors ctxt\<rparr> else None))"

subsection \<open>Pruning methods\<close>

text \<open>
  \<^verbatim>\<open>
  func PruneMethods(info *jsontypes.Info, f func(t *jsontypes.Type, m *jsontypes.Method) bool) {
      for _, t := range info.Types {
          for name, m := range t.Methods {
              if !f(t, m) { delete(t.Methods, name) }
          }
      }
  }
  \<close>
  The store is updated in place; \<open>f\<close> is given the store as it is when it is called.
  The inner loop runs over the entries the node has when the loop starts, and deletes only
  the entry it stands on. A nil \<^verbatim>\<open>t\<close> panics at \<^verbatim>\<open>t.Methods\<close>.
\<close>

definition pruneMethod ::
  "(heap \<Rightarrow> ptr \<Rightarrow> Method option \<Rightarrow> bool) \<Rightarrow> addr \<Rightarrow> heap \<Rightarrow> string \<times> Method option \<Rightarrow> heap" where
  "pruneMethod f a h entry =
     (if \<not> f h (Some a) (snd entry)
      then h[a := (h ! a)\<lparr>Methods := AList.delete (fst entry) (Methods (h ! a))\<rparr>]
      else h)"

fun pruneTypes ::
  "(heap \<Rightarrow> ptr \<Rightarrow> Method option \<Rightarrow> bool) \<Rightarrow> heap \<Rightarrow> (TypeName \<times> ptr) list \<Rightarrow> failure + heap" where
  "pruneTypes f h [] = Inr h"
| "pruneTypes f h ((name, None) # ts) = Inl NilDereference"
| "pruneTypes f h ((name, Some a) # ts) =
     (if a < length h
      then pruneTypes f (foldl (pruneMethod f a) h (Methods (h ! a))) ts
      else Inl Dangling)"

definition PruneMethods ::
  "heap \<Rightarrow> Info \<Rightarrow> (heap \<Rightarrow> ptr \<Rightarrow> Method option \<Rightarrow> bool) \<Rightarrow> failure + heap" where
  "PruneMethods h info f = pruneTypes f h (Types info)"

section \<open>Well-formed graphs\<close>

text \<open>
  A pointer is resolvable in a graph when it is not nil and \<^verbatim>\<open>Deref\<close> returns for it.
\<close>

definition resolvable :: "heap \<Rightarrow> Info \<Rightarrow> ptr \<Rightarrow> bool" where
  "resolvable h g p = (case Deref h g p of Inr (Some a) \<Rightarrow> a < length h | _ \<Rightarrow> False)"

text \<open>
  A node carries its sub-types when every pointer the checker follows from a node of its
  kind is resolvable, and no field or method pointer is nil.
\<close>

definition fieldResolvable :: "heap \<Rightarrow> Info \<Rightarrow> Field option \<Rightarrow> bool" where
  "fieldResolvable h g f = (case f of None \<Rightarrow> False | Some f \<Rightarrow> resolvable h g (Field.Type f))"

definition methodResolvable :: "heap \<Rightarrow> Info \<Rightarrow> Method option \<Rightarrow> bool" where
  "methodResolvable h g m = (case m of None \<Rightarrow> False | Some m \<Rightarrow> resolvable h g (Method.Type m))"

definition subtypesPresent :: "heap \<Rightarrow> Info \<Rightarrow> Type \<Rightarrow> bool" where
  "subtypesPresent h g v =
     ((Kind v \<in> {Array, Slice, Chan, Ptr, Map} \<longrightarrow> resolvable h g (Elem v)) \<and>
      (Kind v = Map \<longrightarrow> resolvable h g (Key v)) \<and>
      (Kind v = Func \<longrightarrow> list_all (resolvable h g) (In v) \<and> list_all (resolvable h g) (Out v)) \<and>
      (Kind v = Struct \<longrightarrow> list_all (fieldResolvable h g) (Fields v)) \<and>
      list_all (methodResolvable h g) (map snd (Methods v)))"

text \<open>
  The graphs the specification calls well-formed: every reference resolvable, every
  composite kind carrying its sub-types. (That a \<^verbatim>\<open>Methods\<close> map has each key once is a
  property of Go maps, which the association list has to be told.)
\<close>

definition wellFormedAsClaimed :: "heap \<Rightarrow> Info \<Rightarrow> bool" where
  "wellFormedAsClaimed h g =
     list_all (\<lambda>v. subtypesPresent h g v \<and> distinct (map fst (Methods v))) h"

text \<open>
  The field names of a list of fields, a nil field counting as the empty name. A graph
  is well-formed when, besides, no struct has two fields of one name.
\<close>

definition fieldNames :: "Field option list \<Rightarrow> string list" where
  "fieldNames fs = map (\<lambda>f. case f of None \<Rightarrow> [] | Some f \<Rightarrow> Field.Name f) fs"

definition wellFormed :: "heap \<Rightarrow> Info \<Rightarrow> bool" where
  "wellFormed h g =
     (wellFormedAsClaimed h g \<and> list_all (\<lambda>v. Kind v = Struct \<longrightarrow> distinct (fieldNames (Fields v))) h)"

section \<open>Example graphs\<close>

text \<open>Go's zero value of \<^verbatim>\<open>Type\<close>, and of the ignore predicate the one that never matches.\<close>

definition zeroType :: Type where
  "zeroType = \<lparr>Name = [], Kind = [], Methods = [], Fields = [], Elem = None, Key = None,
               In = [], Out = [], Variadic = False\<rparr>"

definition ignoreNothing :: "heap \<Rightarrow> Info \<Rightarrow> ptr \<Rightarrow> bool" where
  "ignoreNothing h info t = False"

text \<open>
  \<^verbatim>\<open>type Node struct { Next *Node; Val int; W interface{ Write(int) int } }\<close> (\<^verbatim>\<open>Next\<close> tagged
  \<^verbatim>\<open>json:"next"\<close>)
  with \<^verbatim>\<open>func (Node) String() string\<close>, as the extractor lays it out: the named struct at
  address 0, the pointer at 1 with a reference to the struct by name at 2 (a node with
  the name and nothing else), \<^verbatim>\<open>int\<close> at 3, the anonymous interface at 4 with its method
  type at 5, the type of \<^verbatim>\<open>String\<close> at 6 and \<^verbatim>\<open>string\<close> at 7.
\<close>

definition nodeHeap :: heap where
  \<open>nodeHeap =
     [zeroType\<lparr>Name := ''pkg#Node'', Kind := Struct,
         Fields := [Some \<lparr>Field.Name = ''Next'', Type = Some 1, Anonymous = False, Tag = ''json:"next"''\<rparr>,
                    Some \<lparr>Field.Name = ''Val'', Type = Some 3, Anonymous = False, Tag = []\<rparr>,
                    Some \<lparr>Field.Name = ''W'', Type = Some 4, Anonymous = False, Tag = []\<rparr>],
         Methods := [(''String'', Some \<lparr>PtrReceiver = False, Name = ''String'', Type = Some 6\<rparr>)]\<rparr>,
      zeroType\<lparr>Kind := Ptr, Elem := Some 2\<rparr>,
      zeroType\<lparr>Name := ''pkg#Node''\<rparr>,
      zeroType\<lparr>Kind := Int_kind\<rparr>,
      zeroType\<lparr>Kind := Interface,
         Methods := [(''Write'', Some \<lparr>PtrReceiver = False, Name = ''Write'', Type = Some 5\<rparr>)]\<rparr>,
      zeroType\<lparr>Kind := Func, In := [Some 3], Out := [Some 3]\<rparr>,
      zeroType\<lparr>Kind := Func, Out := [Some 7]\<rparr>,
      zeroType\<lparr>Kind := String\<rparr>]\<close>

definition nodeInfo :: Info where
  "nodeInfo = \<lparr>Types = [(''pkg#Node'', Some 0)]\<rparr>"

text \<open>A pointer type whose element is missing: \<^verbatim>\<open>{"Kind": "ptr"}\<close>.\<close>

definition nilElemHeap :: heap where
  "nilElemHeap = [zeroType\<lparr>Kind := Ptr\<rparr>]"

text \<open>
  A struct description with two fields of one name, \<^verbatim>\<open>X\<close> of kind \<^verbatim>\<open>int\<close> and \<^verbatim>\<open>X\<close> of
  kind \<^verbatim>\<open>string\<close>.
\<close>

definition twoXHeap :: heap where
  "twoXHeap =
     [zeroType\<lparr>Kind := Struct,
         Fields := [Some \<lparr>Field.Name = ''X'', Type = Some 1, Anonymous = False, Tag = []\<rparr>,
                    Some \<lparr>Field.Name = ''X'', Type = Some 2, Anonymous = False, Tag = []\<rparr>]\<rparr>,
      zeroType\<lparr>Kind := Int_kind\<rparr>,
      zeroType\<lparr>Kind := String\<rparr>]"

text \<open>
  An old and a new version of \<^verbatim>\<open>pkg#T\<close> in one store. Old, at address 0:
  \<^verbatim>\<open>struct { A int; B string }\<close> with \<^verbatim>\<open>func (T) String() string\<close>. New, at address 1:
  \<^verbatim>\<open>struct { A int; C int }\<close> with \<^verbatim>\<open>func (*T) String(int) string\<close>. \<^verbatim>\<open>int\<close> is at 2,
  \<^verbatim>\<open>string\<close> at 3, the old method type at 4 and the new one at 5.
\<close>

definition evolveHeap :: heap where
  \<open>evolveHeap =
     [zeroType\<lparr>Name := ''pkg#T'', Kind := Struct,
         Fields := [Some \<lparr>Field.Name = ''A'', Type = Some 2, Anonymous = False, Tag = ''json:"a"''\<rparr>,
                    Some \<lparr>Field.Name = ''B'', Type = Some 3, Anonymous = False, Tag = []\<rparr>],
         Methods := [(''String'', Some \<lparr>PtrReceiver = False, Name = ''String'', Type = Some 4\<rparr>)]\<rparr>,
      zeroType\<lparr>Name := ''pkg#T'', Kind := Struct,
         Fields := [Some \<lparr>Field.Name = ''A'', Type = Some 2, Anonymous = False, Tag = ''json:"a"''\<rparr>,
                    Some \<lparr>Field.Name = ''C'', Type = Some 2, Anonymous = False, Tag = []\<rparr>],
         Methods := [(''String'', Some \<lparr>PtrReceiver = True, Name = ''String'', Type = Some 5\<rparr>)]\<rparr>,
      zeroType\<lparr>Kind := Int_kind\<rparr>,
      zeroType\<lparr>Kind := String\<rparr>,
      zeroType\<lparr>Kind := Func, Out := [Some 3]\<rparr>,
      zeroType\<lparr>Kind := Func, In := [Some 2], Out := [Some 3]\<rparr>]\<close>

definition oldInfo :: Info where
  "oldInfo = \<lparr>Types = [(''pkg#T'', Some 0)]\<rparr>"

definition newInfo :: Info where
  "newInfo = \<lparr>Types = [(''pkg#T'', Some 1)]\<rparr>"



text \<open>
  Two references by name, \<^verbatim>\<open>&Type{Name: "pkg#T"}\<close> at address 0 and \<^verbatim>\<open>&Type{Name: "pkg#U"}\<close> at
  address 2, as \<^verbatim>\<open>Ref\<close> builds them and as \<^verbatim>\<open>{"Name": "pkg#T"}\<close> decodes, and two structs with
  a field \<^verbatim>\<open>F\<close> of these types. The examples use them with graphs that have no entry for
  either name.
\<close>

definition stubHeap :: heap where
  "stubHeap =
     [zeroType\<lparr>Name := ''pkg#T''\<rparr>,
      zeroType\<lparr>Kind := Struct,
         Fields := [Some \<lparr>Field.Name = ''F'', Type = Some 0, Anonymous = False, Tag = []\<rparr>]\<rparr>,
      zeroType\<lparr>Name := ''pkg#U''\<rparr>,
      zeroType\<lparr>Kind := Struct,
         Fields := [Some \<lparr>Field.Name = ''F'', Type = Some 2, Anonymous = False, Tag = []\<rparr>]\<rparr>]"





section \<open>Invariants of the traversal\<close>

text \<open>
  The nodes of a store as pointers, and the number of them a context has not visited.
  \<open>grows h c c'\<close>: from \<open>c\<close> to \<open>c'\<close> the graphs and the predicate are the same, the
  visited set has grown, and every call counted by \<open>visits\<close> is paid for by a node that
  was not visited before.
\<close>

definition nodes :: "heap \<Rightarrow> ptr set" where
  "nodes h = Some ` {..<length h}"

definition unvisited :: "heap \<Rightarrow> checkContext \<Rightarrow> nat" where
  "unvisited h c = card (nodes h - checked c)"

definition grows :: "heap \<Rightarrow> checkContext \<Rightarrow> checkContext \<Rightarrow> bool" where
  "grows h c c' =
     (info0 c' = info0 c \<and> info1 c' = info1 c \<and> ignore c' = ignore c \<and>
      checked c \<subseteq> checked c' \<and>
      visits c' + unvisited h c' \<le> visits c + unvisited h c)"

text \<open>
  \<open>within F P r\<close>: the result \<open>r\<close> is a context with \<open>P\<close>, or a failure in \<open>F\<close>.
\<close>

definition within :: "failure set \<Rightarrow> (checkContext \<Rightarrow> bool) \<Rightarrow> result \<Rightarrow> bool" where
  "within F P r = (case r of Inl e \<Rightarrow> e \<in> F | Inr c \<Rightarrow> P c)"

text \<open>
  The contexts of a comparison of a graph with itself under the predicate that ignores
  nothing, with the error list \<open>es\<close>.
\<close>

definition selfChecking :: "Info \<Rightarrow> error list \<Rightarrow> checkContext \<Rightarrow> bool" where
  "selfChecking g es c =
     (info0 c = g \<and> info1 c = g \<and> ignore c = ignoreNothing \<and> errors c = es)"

section \<open>Struct tags: which keys are compared\<close>

lemma foldl_checkTag:
  "foldl (checkTag path tags1) ctxt tags0 =
     ctxt\<lparr>errors := errors ctxt @
        map (\<lambda>entry. (path, IncompatibleTag (fst entry) (snd entry) (tagValue tags1 (fst entry))))
          (filter (\<lambda>entry. tagValue tags1 (fst entry) \<noteq> snd entry) tags0)\<rparr>"
  by (induction tags0 arbitrary: ctxt) (auto simp: checkTag_def errorf_def Let_def)

lemma distinct_allTags_loop:
  "distinct (map fst all) \<Longrightarrow> distinct (map fst (allTags_loop unq tag all))"
  by (induction unq tag all rule: allTags_loop.induct)
     (subst allTags_loop.simps, auto simp: Let_def distinct_update)

lemma distinct_allTags: "distinct (map fst (allTags unq tag))"
  by (simp add: allTags_def distinct_allTags_loop)

text \<open>
  C1, as the code has it. \<^verbatim>\<open>checkTagCompat\<close> changes nothing but the error list. It goes
  through the keys of the old tag, each once, and appends one "incompatible tag" violation,
  naming the key and both values, for exactly those keys whose old value differs from
  the value the new tag gives the key, where a key the new tag does not have reads as the
  empty string. So a key present in both tags with different values is one violation; a
  key absent from the new tag is one violation as well unless its old value is empty; a
  key of the new tag alone is never looked at.
\<close>

theorem checkTagCompat_violations:
  "checkTagCompat unq ctxt tag0 tag1 path =
     ctxt\<lparr>errors := errors ctxt @
        map (\<lambda>entry. (path, IncompatibleTag (fst entry) (snd entry)
                               (tagValue (allTags unq tag1) (fst entry))))
          (filter (\<lambda>entry. tagValue (allTags unq tag1) (fst entry) \<noteq> snd entry)
             (allTags unq tag0))\<rparr>
   \<and> distinct (map fst (allTags unq tag0))
   \<and> (\<forall>name. tagValue (allTags unq tag1) name =
         (case map_of (allTags unq tag1) name of None \<Rightarrow> [] | Some v \<Rightarrow> v))"
  by (simp add: checkTagCompat_def Let_def foldl_checkTag distinct_allTags tagValue_def)

theorem checkTagCompat_violations_witness:
  \<open>checkTagCompat Unquote_plain (newContext \<lparr>Types = []\<rparr> \<lparr>Types = []\<rparr> (\<lambda>h i t. False))
      ''key:"a" other:"x" gone:""'' ''key:"b" other:"x" added:"y"'' ''.F'' =
    (newContext \<lparr>Types = []\<rparr> \<lparr>Types = []\<rparr> (\<lambda>h i t. False))
      \<lparr>errors := [(''.F'', IncompatibleTag ''key'' ''a'' ''b'')]\<rparr>\<close>
proof -
  have t0: \<open>allTags Unquote_plain ''key:"a" other:"x" gone:""'' =
      [(''key'', ''a''), (''other'', ''x''), (''gone'', [])]\<close>
    by code_simp
  have t1: \<open>allTags Unquote_plain ''key:"b" other:"x" added:"y"'' =
      [(''key'', ''b''), (''other'', ''x''), (''added'', ''y'')]\<close>
    by code_simp
  show ?thesis
    using checkTagCompat_violations
      [of Unquote_plain "newContext \<lparr>Types = []\<rparr> \<lparr>Types = []\<rparr> (\<lambda>h i t. False)"
          \<open>''key:"a" other:"x" gone:""''\<close> \<open>''key:"b" other:"x" added:"y"''\<close> "''.F''"]
    by (simp add: t0 t1 tagValue_def newContext_def)
qed

text \<open>
  C1 as the specification words it fails: the old tag \<^verbatim>\<open>key:"a"\<close> against the empty new
  tag. The key is in the old mapping and not in the new one, and a violation is recorded.
\<close>

theorem checkTagCompat_dropped_key_counterexample:
  \<open>map_of (allTags Unquote_plain ''key:"a"'') ''key'' = Some ''a''
   \<and> map_of (allTags Unquote_plain []) ''key'' = None
   \<and> errors (checkTagCompat Unquote_plain
        (newContext \<lparr>Types = []\<rparr> \<lparr>Types = []\<rparr> (\<lambda>h i t. False)) ''key:"a"'' [] ''.F'')
      = [(''.F'', IncompatibleTag ''key'' ''a'' [])]\<close>
proof -
  have t0: \<open>allTags Unquote_plain ''key:"a"'' = [(''key'', ''a'')]\<close>
    by code_simp
  have t1: \<open>allTags Unquote_plain [] = []\<close>
    by code_simp
  show ?thesis
    by (simp add: t0 t1 checkTagCompat_def checkTag_def tagValue_def errorf_def newContext_def)
qed

section \<open>Resolving a reference\<close>

lemma Deref_not_nil: "Deref h info t \<noteq> Inr None"
  by (auto simp: Deref_def load_def split: option.splits sum.splits if_splits)

text \<open>
  What \<^verbatim>\<open>Deref\<close> does, case by case. For a pointer \<open>t\<close> to a node \<open>tv\<close>: when the graph has a
  (non-nil) entry \<open>dt\<close> under the node's name, \<^verbatim>\<open>Deref\<close> returns \<open>dt\<close>; when it has none (the
  key is missing, or stored with nil, which Go's map read does not tell apart) and the
  node's kind is not the string \<^verbatim>\<open>"unknown"\<close>, it returns \<open>t\<close> itself; when it has none and the
  kind is \<^verbatim>\<open>"unknown"\<close> it panics with the name. In no case does it return nil.
\<close>

lemma Deref_cases:
  "load h t = Inr tv \<Longrightarrow>
     (\<forall>dt. map_of (Types info) (Type.Name tv) = Some (Some dt) \<longrightarrow>
         Deref h info t = Inr (Some dt))
   \<and> (map_of (Types info) (Type.Name tv) \<in> {None, Some None} \<and> Kind tv \<noteq> Unknown \<longrightarrow>
         Deref h info t = Inr t)
   \<and> (map_of (Types info) (Type.Name tv) \<in> {None, Some None} \<and> Kind tv = Unknown \<longrightarrow>
         Deref h info t = Inl (DerefPanic (Type.Name tv)))
   \<and> Deref h info t \<noteq> Inr None"
  by (auto simp: Deref_def load_def split: option.splits sum.splits if_splits)

text \<open>
  The kind that makes \<^verbatim>\<open>Deref\<close> panic is the string \<^verbatim>\<open>"unknown"\<close>, which nothing in the
  package assigns: the extractor takes kinds from \<^verbatim>\<open>reflect\<close>, and a reference as \<^verbatim>\<open>Ref\<close>
  builds it, \<^verbatim>\<open>&Type{Name: jt.Name}\<close>, has the empty kind. So a reference whose name has no
  entry does not reach the panic: it is returned as it is.
\<close>

lemma Deref_reference_without_entry:
  assumes "a < length h" and "h ! a = zeroType\<lparr>Name := name\<rparr>"
    and "map_of (Types info) name = None"
  shows "Deref h info (Some a) = Inr (Some a)"
  using assms by (simp add: Deref_def load_def zeroType_def)

text \<open>
  C9, at a reference the graph does not resolve. The node at address 0 is the reference
  \<^verbatim>\<open>&Type{Name: "pkg#T"}\<close>, its kind is empty, and the graph has no entry \<^verbatim>\<open>pkg#T\<close>. \<^verbatim>\<open>Deref\<close>
  does not panic: it returns the reference itself. And \<^verbatim>\<open>Check\<close> of \<^verbatim>\<open>struct { F pkg.T }\<close>
  against \<^verbatim>\<open>struct { F pkg.U }\<close>, neither name resolved on either side, compares the two
  references as two types of the same (empty) kind and returns nil.
\<close>

theorem Deref_dangling_reference_returned:
  "load stubHeap (Some 0) = Inr (zeroType\<lparr>Name := ''pkg#T''\<rparr>)
   \<and> Kind (zeroType\<lparr>Name := ''pkg#T''\<rparr>) = []
   \<and> map_of (Types \<lparr>Types = []\<rparr>) ''pkg#T'' = None
   \<and> Deref stubHeap \<lparr>Types = []\<rparr> (Some 0) = Inr (Some 0)
   \<and> Check Unquote_plain stubHeap \<lparr>Types = []\<rparr> \<lparr>Types = []\<rparr> (Some 1) (Some 3) ignoreNothing
       = Inr None"
  by code_simp

section \<open>Pruning methods: what is left untouched\<close>

lemma pruneMethod_frame:
  "length (pruneMethod f a h e) = length h \<and>
   (\<forall>b < length h. pruneMethod f a h e ! b = (h ! b)\<lparr>Methods := Methods (pruneMethod f a h e ! b)\<rparr>
       \<and> set (Methods (pruneMethod f a h e ! b)) \<subseteq> set (Methods (h ! b))
       \<and> (b \<noteq> a \<longrightarrow> pruneMethod f a h e ! b = h ! b))"
proof (intro conjI allI impI)
  show "length (pruneMethod f a h e) = length h"
    by (simp add: pruneMethod_def)
next
  fix b assume b: "b < length h"
  show "pruneMethod f a h e ! b = (h ! b)\<lparr>Methods := Methods (pruneMethod f a h e ! b)\<rparr>"
    using b by (cases "b = a") (simp_all add: pruneMethod_def)
  show "set (Methods (pruneMethod f a h e ! b)) \<subseteq> set (Methods (h ! b))"
    using b by (cases "b = a") (auto simp: pruneMethod_def AList.delete_eq)
  show "b \<noteq> a \<Longrightarrow> pruneMethod f a h e ! b = h ! b"
    by (simp add: pruneMethod_def)
qed

lemma foldl_pruneMethod_frame:
  "length (foldl (pruneMethod f a) h es) = length h \<and>
   (\<forall>b < length h. foldl (pruneMethod f a) h es ! b
          = (h ! b)\<lparr>Methods := Methods (foldl (pruneMethod f a) h es ! b)\<rparr>
       \<and> set (Methods (foldl (pruneMethod f a) h es ! b)) \<subseteq> set (Methods (h ! b))
       \<and> (b \<noteq> a \<longrightarrow> foldl (pruneMethod f a) h es ! b = h ! b))"
proof (induction es arbitrary: h)
  case Nil
  show ?case by simp
next
  case (Cons e es)
  let ?h1 = "pruneMethod f a h e"
  note s = pruneMethod_frame [of f a h e]
  note i = Cons.IH [of ?h1]
  show ?case
  proof (intro conjI allI impI)
    show "length (foldl (pruneMethod f a) h (e # es)) = length h"
      using s i by simp
  next
    fix b assume b: "b < length h"
    then have b1: "b < length ?h1" using s by simp
    have e1: "foldl (pruneMethod f a) ?h1 es ! b
        = (?h1 ! b)\<lparr>Methods := Methods (foldl (pruneMethod f a) ?h1 es ! b)\<rparr>"
      using i b1 by blast
    have e2: "?h1 ! b = (h ! b)\<lparr>Methods := Methods (?h1 ! b)\<rparr>"
      using s b by blast
    show "foldl (pruneMethod f a) h (e # es) ! b
        = (h ! b)\<lparr>Methods := Methods (foldl (pruneMethod f a) h (e # es) ! b)\<rparr>"
      by (simp, subst e1, subst e2, simp)
    show "set (Methods (foldl (pruneMethod f a) h (e # es) ! b)) \<subseteq> set (Methods (h ! b))"
      using s i b b1 by (simp, blast)
    show "b \<noteq> a \<Longrightarrow> foldl (pruneMethod f a) h (e # es) ! b = h ! b"
      using s i b b1 by simp
  qed
qed

lemma pruneTypes_frame:
  "pruneTypes f h ts = Inr h' \<Longrightarrow>
   length h' = length h \<and>
   (\<forall>b < length h. h' ! b = (h ! b)\<lparr>Methods := Methods (h' ! b)\<rparr>
       \<and> set (Methods (h' ! b)) \<subseteq> set (Methods (h ! b))
       \<and> (Some b \<notin> snd ` set ts \<longrightarrow> h' ! b = h ! b))"
proof (induction f h ts rule: pruneTypes.induct)
  case (1 f h)
  then show ?case by simp
next
  case (2 f h name ts)
  then show ?case by simp
next
  case (3 f h name a ts)
  let ?h1 = "foldl (pruneMethod f a) h (Methods (h ! a))"
  from "3.prems" have a: "a < length h" and r: "pruneTypes f ?h1 ts = Inr h'"
    by (auto split: if_splits)
  note s = foldl_pruneMethod_frame [of f a h "Methods (h ! a)"]
  note i = "3.IH" [OF a r]
  show ?case
  proof (intro conjI allI impI)
    show "length h' = length h" using s i by simp
  next
    fix b assume b: "b < length h"
    then have b1: "b < length ?h1" using s by simp
    have e1: "h' ! b = (?h1 ! b)\<lparr>Methods := Methods (h' ! b)\<rparr>"
      using i b1 by blast
    have e2: "?h1 ! b = (h ! b)\<lparr>Methods := Methods (?h1 ! b)\<rparr>"
      using s b by blast
    show "h' ! b = (h ! b)\<lparr>Methods := Methods (h' ! b)\<rparr>"
      by (subst e1, subst e2, simp)
    show "set (Methods (h' ! b)) \<subseteq> set (Methods (h ! b))"
      using s i b b1 by blast
    show "Some b \<notin> snd ` set ((name, Some a) # ts) \<Longrightarrow> h' ! b = h ! b"
      using s i b b1 by (auto simp: image_iff)
  qed
qed

text \<open>
  C10. When \<^verbatim>\<open>PruneMethods\<close> returns, the store has the same nodes at the same addresses;
  every node is what it was but for its \<^verbatim>\<open>Methods\<close> (so \<^verbatim>\<open>Name\<close>, \<^verbatim>\<open>Kind\<close>, \<^verbatim>\<open>Fields\<close>, \<^verbatim>\<open>Elem\<close>,
  \<^verbatim>\<open>Key\<close>, \<^verbatim>\<open>In\<close>, \<^verbatim>\<open>Out\<close> and \<^verbatim>\<open>Variadic\<close> are unchanged everywhere), no node has gained a
  method, and a node that is not a value of the graph's \<^verbatim>\<open>Types\<close> map is unchanged
  altogether, its methods included: nodes reached only through \<^verbatim>\<open>Elem\<close>, \<^verbatim>\<open>Key\<close>, \<^verbatim>\<open>In\<close>,
  \<^verbatim>\<open>Out\<close> or a field's type are not pruned.
\<close>

theorem PruneMethods_frame:
  "PruneMethods h info f = Inr h' \<Longrightarrow>
   length h' = length h \<and>
   (\<forall>a < length h.
       h' ! a = (h ! a)\<lparr>Methods := Methods (h' ! a)\<rparr>
     \<and> set (Methods (h' ! a)) \<subseteq> set (Methods (h ! a))
     \<and> (Some a \<notin> snd ` set (Types info) \<longrightarrow> h' ! a = h ! a))"
  unfolding PruneMethods_def by (rule pruneTypes_frame)

text \<open>
  On the example, with a predicate that keeps nothing: the named struct at address 0
  loses \<^verbatim>\<open>String\<close>, the anonymous interface at address 4 keeps \<^verbatim>\<open>Write\<close>.
\<close>

theorem PruneMethods_frame_witness:
  "PruneMethods nodeHeap nodeInfo (\<lambda>h t m. False) = Inr (nodeHeap[0 := (nodeHeap ! 0)\<lparr>Methods := []\<rparr>])
   \<and> length (nodeHeap[0 := (nodeHeap ! 0)\<lparr>Methods := []\<rparr>]) = length nodeHeap
   \<and> (nodeHeap[0 := (nodeHeap ! 0)\<lparr>Methods := []\<rparr>]) ! 4 = nodeHeap ! 4
   \<and> Methods (nodeHeap ! 4) = [(''Write'', Some \<lparr>PtrReceiver = False, Name = ''Write'', Type = Some 5\<rparr>)]
   \<and> Some 4 \<notin> snd ` set (Types nodeInfo)"
proof -
  have run: "PruneMethods nodeHeap nodeInfo (\<lambda>h t m. False)
      = Inr (nodeHeap[0 := (nodeHeap ! 0)\<lparr>Methods := []\<rparr>])"
    by (simp add: PruneMethods_def nodeInfo_def nodeHeap_def pruneMethod_def zeroType_def
          AList.delete_eq)
  show ?thesis
    using PruneMethods_frame [OF run] run
    by (simp add: nodeInfo_def nodeHeap_def zeroType_def)
qed

section \<open>One call of the comparison\<close>

lemma mark_simps [simp]:
  "info0 (mark c t0 t1) = info0 c" "info1 (mark c t0 t1) = info1 c"
  "ignore (mark c t0 t1) = ignore c" "errors (mark c t0 t1) = errors c"
  "checked (mark c t0 t1) = insert t1 (insert t0 (checked c))"
  "visits (mark c t0 t1) = Suc (visits c)"
  by (simp_all add: mark_def)

lemma errorf_simps [simp]:
  "info0 (errorf c p m) = info0 c" "info1 (errorf c p m) = info1 c"
  "ignore (errorf c p m) = ignore c" "errors (errorf c p m) = errors c @ [(p, m)]"
  "checked (errorf c p m) = checked c" "visits (errorf c p m) = visits c"
  by (simp_all add: errorf_def)

lemma load_Some_not_nil: "load h d = Inr v \<Longrightarrow> d \<noteq> None"
  by (cases d) (simp_all add: load_def)

lemma check_reaches_resolved:
  assumes "\<not> (t0 \<in> checked ctxt \<and> t1 \<in> checked ctxt)"
    and "Deref h (info0 ctxt) t0 = Inr d0" and "Deref h (info1 ctxt) t1 = Inr d1"
    and "\<not> ignore ctxt h (info0 ctxt) d0" and "\<not> ignore ctxt h (info1 ctxt) d1"
  shows "check (Suc n) unq h ctxt t0 t1 path =
     checkResolved (check n unq h) unq h (mark ctxt t0 t1) d0 d1 path"
  using assms by (auto simp: checkStep_def Let_def)

lemma checkResolved_loaded:
  assumes "load h d0 = Inr v0" and "load h d1 = Inr v1"
  shows "checkResolved chk unq h c d0 d1 path =
     (if Kind v0 \<noteq> Kind v1
      then Inr (errorf c path (IncompatibleKinds (Kind v0) (Kind v1)))
      else
        (case checkKind chk unq c v0 v1 path of
           Inl e \<Rightarrow> Inl e
         | Inr c \<Rightarrow> checkMethods chk c (Methods v0) (Methods v1) path))"
proof -
  have "d0 \<noteq> None" "d1 \<noteq> None"
    using assms by (auto dest: load_Some_not_nil)
  then show ?thesis
    using assms by (auto simp: checkResolved_def)
qed

lemma check_resolved:
  assumes "\<not> (t0 \<in> checked ctxt \<and> t1 \<in> checked ctxt)"
    and "Deref h (info0 ctxt) t0 = Inr d0" and "Deref h (info1 ctxt) t1 = Inr d1"
    and "\<not> ignore ctxt h (info0 ctxt) d0" and "\<not> ignore ctxt h (info1 ctxt) d1"
    and "load h d0 = Inr v0" and "load h d1 = Inr v1"
  shows "check (Suc n) unq h ctxt t0 t1 path =
     (if Kind v0 \<noteq> Kind v1
      then Inr (errorf (mark ctxt t0 t1) path (IncompatibleKinds (Kind v0) (Kind v1)))
      else
        (case checkKind (check n unq h) unq (mark ctxt t0 t1) v0 v1 path of
           Inl e \<Rightarrow> Inl e
         | Inr c \<Rightarrow> checkMethods (check n unq h) c (Methods v0) (Methods v1) path))"
proof -
  have "d0 \<noteq> None" "d1 \<noteq> None"
    using assms(6,7) by (auto dest: load_Some_not_nil)
  then show ?thesis
    using assms by (auto simp: checkStep_def checkResolved_def Let_def)
qed

text \<open>
  C8. The two resolved types of a pair have different kinds: the comparison of the
  resolved pair appends the one violation "incompatible kinds", with both kinds, at the
  current path, and returns; nothing else of the context changes, so neither the kind
  switch nor the method loop (nor, inside them, a tag comparison) has run. For the call
  of \<^verbatim>\<open>check\<close> that reaches this comparison (the pair not skipped as visited, both
  references resolved, neither resolved type ignored) the result is the context with the
  two pointers marked and that one violation.
\<close>

theorem check_incompatible_kinds:
  assumes "load h d0 = Inr v0" and "load h d1 = Inr v1" and "Kind v0 \<noteq> Kind v1"
  shows "checkResolved chk unq h c d0 d1 path =
           Inr (c\<lparr>errors := errors c @ [(path, IncompatibleKinds (Kind v0) (Kind v1))]\<rparr>)
       \<and> (\<not> (t0 \<in> checked ctxt \<and> t1 \<in> checked ctxt) \<and>
          Deref h (info0 ctxt) t0 = Inr d0 \<and> Deref h (info1 ctxt) t1 = Inr d1 \<and>
          \<not> ignore ctxt h (info0 ctxt) d0 \<and> \<not> ignore ctxt h (info1 ctxt) d1 \<longrightarrow>
            check (Suc n) unq h ctxt t0 t1 path =
              Inr (ctxt\<lparr>checked := insert t1 (insert t0 (checked ctxt)),
                        errors := errors ctxt @ [(path, IncompatibleKinds (Kind v0) (Kind v1))],
                        visits := Suc (visits ctxt)\<rparr>))"
proof (intro conjI impI)
  show r: "checkResolved chk unq h c d0 d1 path =
           Inr (c\<lparr>errors := errors c @ [(path, IncompatibleKinds (Kind v0) (Kind v1))]\<rparr>)"
    for chk c
    using assms by (simp add: checkResolved_loaded errorf_def)
  assume "\<not> (t0 \<in> checked ctxt \<and> t1 \<in> checked ctxt) \<and>
          Deref h (info0 ctxt) t0 = Inr d0 \<and> Deref h (info1 ctxt) t1 = Inr d1 \<and>
          \<not> ignore ctxt h (info0 ctxt) d0 \<and> \<not> ignore ctxt h (info1 ctxt) d1"
  then have "check (Suc n) unq h ctxt t0 t1 path =
     checkResolved (check n unq h) unq h (mark ctxt t0 t1) d0 d1 path"
    by (intro check_reaches_resolved) simp_all
  then show "check (Suc n) unq h ctxt t0 t1 path =
              Inr (ctxt\<lparr>checked := insert t1 (insert t0 (checked ctxt)),
                        errors := errors ctxt @ [(path, IncompatibleKinds (Kind v0) (Kind v1))],
                        visits := Suc (visits ctxt)\<rparr>)"
    by (simp add: r mark_def)
qed

text \<open>
  On the example: \<^verbatim>\<open>int\<close> (address 2) against \<^verbatim>\<open>string\<close> (address 3).
\<close>

theorem check_incompatible_kinds_witness:
  "load evolveHeap (Some 2) = Inr (evolveHeap ! 2) \<and> load evolveHeap (Some 3) = Inr (evolveHeap ! 3)
   \<and> Kind (evolveHeap ! 2) = Int_kind \<and> Kind (evolveHeap ! 3) = String
   \<and> Deref evolveHeap oldInfo (Some 2) = Inr (Some 2)
   \<and> Deref evolveHeap newInfo (Some 3) = Inr (Some 3)
   \<and> check (Suc 0) Unquote_plain evolveHeap (newContext oldInfo newInfo ignoreNothing)
        (Some 2) (Some 3) ''.A''
      = Inr \<lparr>info0 = oldInfo, info1 = newInfo, ignore = ignoreNothing,
             checked = {Some 3, Some 2},
             errors = [(''.A'', IncompatibleKinds Int_kind String)], visits = 1\<rparr>"
proof -
  let ?c = "newContext oldInfo newInfo ignoreNothing"
  have 1: "load evolveHeap (Some 2) = Inr (evolveHeap ! 2)" "load evolveHeap (Some 3) = Inr (evolveHeap ! 3)"
    by (simp_all add: load_def evolveHeap_def)
  have 2: "Kind (evolveHeap ! 2) = Int_kind" "Kind (evolveHeap ! 3) = String"
    by (simp_all add: evolveHeap_def zeroType_def)
  have 3: "Kind (evolveHeap ! 2) \<noteq> Kind (evolveHeap ! 3)"
    by (simp add: 2)
  have 4: "Deref evolveHeap (info0 ?c) (Some 2) = Inr (Some 2)"
    by code_simp
  have 5: "Deref evolveHeap (info1 ?c) (Some 3) = Inr (Some 3)"
    by code_simp
  have 6: "\<not> (Some 2 \<in> checked ?c \<and> Some 3 \<in> checked ?c) \<and>
          Deref evolveHeap (info0 ?c) (Some 2) = Inr (Some 2) \<and>
          Deref evolveHeap (info1 ?c) (Some 3) = Inr (Some 3) \<and>
          \<not> ignore ?c evolveHeap (info0 ?c) (Some 2) \<and> \<not> ignore ?c evolveHeap (info1 ?c) (Some 3)"
    using 4 5 by (simp add: newContext_def ignoreNothing_def)
  have "check (Suc 0) Unquote_plain evolveHeap ?c (Some 2) (Some 3) ''.A'' =
      Inr (?c\<lparr>checked := insert (Some 3) (insert (Some 2) (checked ?c)),
               errors := errors ?c @ [(''.A'', IncompatibleKinds (Kind (evolveHeap ! 2)) (Kind (evolveHeap ! 3)))],
               visits := Suc (visits ?c)\<rparr>)"
    by (rule check_incompatible_kinds [OF 1 3, THEN conjunct2, THEN mp]) (rule 6)
  then show ?thesis
    using 1 2 4 5 by (simp add: newContext_def)
qed


lemma checkMethods_append:
  "checkMethods chk c (xs @ ys) ms1 path =
     (case checkMethods chk c xs ms1 path of
        Inl e \<Rightarrow> Inl e
      | Inr c1 \<Rightarrow> checkMethods chk c1 ys ms1 path)"
proof (induction xs arbitrary: c)
  case Nil
  show ?case by simp
next
  case (Cons x xs)
  obtain name m0 where x: "x = (name, m0)" by (cases x)
  show ?case
    by (simp add: x Cons.IH split: sum.splits option.splits)
qed







lemma check_visited:
  "t0 \<in> checked c \<Longrightarrow> t1 \<in> checked c \<Longrightarrow> check (Suc n) unq h c t0 t1 path = Inr c"
  by (simp add: checkStep_def checkResolved_def)






lemma checkMethods_split:
  assumes "map_of ms1 name = Some (Some m1)"
  shows "checkMethods chk c (pre @ (name, Some m0) # post) ms1 path =
     (case checkMethods chk c pre ms1 path of
        Inl e \<Rightarrow> Inl e
      | Inr c1 \<Rightarrow>
          (case chk (if \<not> PtrReceiver m0 \<and> PtrReceiver m1
                     then errorf c1 path (ValueToPointerReceiver name) else c1)
                  (Method.Type m0) (Method.Type m1) (path @ ''.'' @ name) of
             Inl e \<Rightarrow> Inl e
           | Inr c2 \<Rightarrow> checkMethods chk c2 post ms1 path))"
  using assms by (simp add: checkMethods_append split: sum.splits)

lemma checkMethods_receiver_cases:
  fixes n :: nat and unq :: "string \<Rightarrow> string" and h :: heap
  defines "chk \<equiv> check n unq h"
  assumes "map_of ms1 name = Some (Some m1)"
  shows "(\<not> PtrReceiver m0 \<and> PtrReceiver m1 \<longrightarrow>
            checkMethods chk c (pre @ (name, Some m0) # post) ms1 path =
              (case checkMethods chk c pre ms1 path of
                 Inl e \<Rightarrow> Inl e
               | Inr c1 \<Rightarrow>
                   (case chk (c1\<lparr>errors := errors c1 @ [(path, ValueToPointerReceiver name)]\<rparr>)
                           (Method.Type m0) (Method.Type m1) (path @ ''.'' @ name) of
                      Inl e \<Rightarrow> Inl e
                    | Inr c2 \<Rightarrow> checkMethods chk c2 post ms1 path)))
       \<and> (PtrReceiver m0 \<or> \<not> PtrReceiver m1 \<longrightarrow>
            checkMethods chk c (pre @ (name, Some m0) # post) ms1 path =
              (case checkMethods chk c pre ms1 path of
                 Inl e \<Rightarrow> Inl e
               | Inr c1 \<Rightarrow>
                   (case chk c1 (Method.Type m0) (Method.Type m1) (path @ ''.'' @ name) of
                      Inl e \<Rightarrow> Inl e
                    | Inr c2 \<Rightarrow> checkMethods chk c2 post ms1 path)))
       \<and> (Method.Type m0 \<in> checked c \<and> Method.Type m1 \<in> checked c \<longrightarrow>
            checkMethods (check (Suc n) unq h) c [(name, Some m0)] ms1 path =
              Inr (if \<not> PtrReceiver m0 \<and> PtrReceiver m1
                   then c\<lparr>errors := errors c @ [(path, ValueToPointerReceiver name)]\<rparr>
                   else c))"
proof (intro conjI impI)
  assume "\<not> PtrReceiver m0 \<and> PtrReceiver m1"
  then show "checkMethods chk c (pre @ (name, Some m0) # post) ms1 path =
              (case checkMethods chk c pre ms1 path of
                 Inl e \<Rightarrow> Inl e
               | Inr c1 \<Rightarrow>
                   (case chk (c1\<lparr>errors := errors c1 @ [(path, ValueToPointerReceiver name)]\<rparr>)
                           (Method.Type m0) (Method.Type m1) (path @ ''.'' @ name) of
                      Inl e \<Rightarrow> Inl e
                    | Inr c2 \<Rightarrow> checkMethods chk c2 post ms1 path))"
    using checkMethods_split [OF assms(2), of chk c pre m0 post path]
    by (auto simp: errorf_def split: sum.splits)
next
  assume "PtrReceiver m0 \<or> \<not> PtrReceiver m1"
  then show "checkMethods chk c (pre @ (name, Some m0) # post) ms1 path =
              (case checkMethods chk c pre ms1 path of
                 Inl e \<Rightarrow> Inl e
               | Inr c1 \<Rightarrow>
                   (case chk c1 (Method.Type m0) (Method.Type m1) (path @ ''.'' @ name) of
                      Inl e \<Rightarrow> Inl e
                    | Inr c2 \<Rightarrow> checkMethods chk c2 post ms1 path))"
    using checkMethods_split [OF assms(2), of chk c pre m0 post path]
    by (auto split: sum.splits)
next
  assume v: "Method.Type m0 \<in> checked c \<and> Method.Type m1 \<in> checked c"
  show "checkMethods (check (Suc n) unq h) c [(name, Some m0)] ms1 path =
              Inr (if \<not> PtrReceiver m0 \<and> PtrReceiver m1
                   then c\<lparr>errors := errors c @ [(path, ValueToPointerReceiver name)]\<rparr>
                   else c)"
  proof (cases "\<not> PtrReceiver m0 \<and> PtrReceiver m1")
    case True
    have "check (Suc n) unq h (errorf c path (ValueToPointerReceiver name))
            (Method.Type m0) (Method.Type m1) (path @ ''.'' @ name)
          = Inr (errorf c path (ValueToPointerReceiver name))"
      using v by (intro check_visited) simp_all
    with True assms(2) show ?thesis
      by (simp add: errorf_def del: check.simps)
  next
    case False
    have "check (Suc n) unq h c (Method.Type m0) (Method.Type m1) (path @ ''.'' @ name) = Inr c"
      using v by (intro check_visited) simp_all
    with False assms(2) show ?thesis
      by (auto simp del: check.simps)
  qed
qed




text \<open>
  C6. The loop over the old type's methods is what a compared pair of equal kinds runs
  after its kind switch. For a method \<open>name\<close> of the old type (anywhere in the order of
  the loop, \<open>pre\<close> before it and \<open>post\<close> after it) that the new type has as well: if the
  old one has a value receiver and the new one a pointer receiver, the loop appends the
  one violation "changed from value to pointer receiver" naming the method, and then
  compares the two method types; in every other case (the reverse change among them) it
  appends nothing and compares the two method types. When the two method types need no
  comparison any more (both visited), the method leaves exactly that one violation in the
  first case and nothing in the second.
\<close>

theorem checkMethods_receiver:
  fixes n :: nat and unq :: "string \<Rightarrow> string" and h :: heap
  defines "chk \<equiv> check n unq h"
  assumes "map_of ms1 name = Some (Some m1)"
  shows "(\<not> (t0 \<in> checked ctxt \<and> t1 \<in> checked ctxt) \<and>
          Deref h (info0 ctxt) t0 = Inr d0 \<and> Deref h (info1 ctxt) t1 = Inr d1 \<and>
          \<not> ignore ctxt h (info0 ctxt) d0 \<and> \<not> ignore ctxt h (info1 ctxt) d1 \<and>
          load h d0 = Inr v0 \<and> load h d1 = Inr v1 \<and> Kind v0 = Kind v1 \<longrightarrow>
            check (Suc n) unq h ctxt t0 t1 path =
              (case checkKind chk unq (mark ctxt t0 t1) v0 v1 path of
                 Inl e \<Rightarrow> Inl e
               | Inr c \<Rightarrow> checkMethods chk c (Methods v0) (Methods v1) path))
       \<and> (\<not> PtrReceiver m0 \<and> PtrReceiver m1 \<longrightarrow>
            checkMethods chk c (pre @ (name, Some m0) # post) ms1 path =
              (case checkMethods chk c pre ms1 path of
                 Inl e \<Rightarrow> Inl e
               | Inr c1 \<Rightarrow>
                   (case chk (c1\<lparr>errors := errors c1 @ [(path, ValueToPointerReceiver name)]\<rparr>)
                           (Method.Type m0) (Method.Type m1) (path @ ''.'' @ name) of
                      Inl e \<Rightarrow> Inl e
                    | Inr c2 \<Rightarrow> checkMethods chk c2 post ms1 path)))
       \<and> (PtrReceiver m0 \<or> \<not> PtrReceiver m1 \<longrightarrow>
            checkMethods chk c (pre @ (name, Some m0) # post) ms1 path =
              (case checkMethods chk c pre ms1 path of
                 Inl e \<Rightarrow> Inl e
               | Inr c1 \<Rightarrow>
                   (case chk c1 (Method.Type m0) (Method.Type m1) (path @ ''.'' @ name) of
                      Inl e \<Rightarrow> Inl e
                    | Inr c2 \<Rightarrow> checkMethods chk c2 post ms1 path)))
       \<and> (Method.Type m0 \<in> checked c \<and> Method.Type m1 \<in> checked c \<longrightarrow>
            checkMethods (check (Suc n) unq h) c [(name, Some m0)] ms1 path =
              Inr (if \<not> PtrReceiver m0 \<and> PtrReceiver m1
                   then c\<lparr>errors := errors c @ [(path, ValueToPointerReceiver name)]\<rparr>
                   else c))"
proof -
  have link: "\<not> (t0 \<in> checked ctxt \<and> t1 \<in> checked ctxt) \<and>
          Deref h (info0 ctxt) t0 = Inr d0 \<and> Deref h (info1 ctxt) t1 = Inr d1 \<and>
          \<not> ignore ctxt h (info0 ctxt) d0 \<and> \<not> ignore ctxt h (info1 ctxt) d1 \<and>
          load h d0 = Inr v0 \<and> load h d1 = Inr v1 \<and> Kind v0 = Kind v1 \<longrightarrow>
            check (Suc n) unq h ctxt t0 t1 path =
              (case checkKind chk unq (mark ctxt t0 t1) v0 v1 path of
                 Inl e \<Rightarrow> Inl e
               | Inr c \<Rightarrow> checkMethods chk c (Methods v0) (Methods v1) path)"
    unfolding chk_def
    using check_resolved [of t0 ctxt t1 h d0 d1 v0 v1 n unq path] by simp
  show ?thesis
    using link checkMethods_receiver_cases [OF assms(2), of m0 n unq h c pre post path]
    unfolding chk_def by blast
qed


text \<open>
  On the example: \<^verbatim>\<open>String\<close>, with a value receiver in the old version and a pointer
  receiver in the new one. The second violation comes from the comparison of the two
  method types.
\<close>

theorem checkMethods_receiver_witness:
  "map_of (Methods (evolveHeap ! 1)) ''String''
      = Some (Some \<lparr>PtrReceiver = True, Name = ''String'', Type = Some 5\<rparr>)
   \<and> checkMethods (check (Suc (Suc 0)) Unquote_plain evolveHeap)
        (newContext oldInfo newInfo ignoreNothing)
        ([] @ (''String'', Some \<lparr>PtrReceiver = False, Name = ''String'', Type = Some 4\<rparr>) # [])
        (Methods (evolveHeap ! 1)) []
      = Inr \<lparr>info0 = oldInfo, info1 = newInfo, ignore = ignoreNothing,
             checked = {Some 3, Some 5, Some 4},
             errors = [([], ValueToPointerReceiver ''String''),
                       (''.String'', DifferingParameterCount 0 1)], visits = 2\<rparr>"
proof -
  let ?c = "newContext oldInfo newInfo ignoreNothing"
  let ?old = "\<lparr>PtrReceiver = False, Name = ''String'', Type = Some 4\<rparr>"
  let ?new = "\<lparr>PtrReceiver = True, Name = ''String'', Type = Some 5\<rparr>"
  let ?chk = "check (Suc (Suc 0)) Unquote_plain evolveHeap"
  have 1: "map_of (Methods (evolveHeap ! 1)) ''String'' = Some (Some ?new)"
    by (simp add: evolveHeap_def zeroType_def)
  have step: "checkMethods ?chk ?c ([] @ (''String'', Some ?old) # []) (Methods (evolveHeap ! 1)) [] =
      (case checkMethods ?chk ?c [] (Methods (evolveHeap ! 1)) [] of
         Inl e \<Rightarrow> Inl e
       | Inr c1 \<Rightarrow>
           (case ?chk (c1\<lparr>errors := errors c1 @ [([], ValueToPointerReceiver ''String'')]\<rparr>)
                   (Method.Type ?old) (Method.Type ?new) ([] @ ''.'' @ ''String'') of
              Inl e \<Rightarrow> Inl e
            | Inr c2 \<Rightarrow> checkMethods ?chk c2 [] (Methods (evolveHeap ! 1)) []))"
    by (rule checkMethods_receiver [OF 1, where ?m0.0 = ?old and n = "Suc (Suc 0)"
          and unq = Unquote_plain and h = evolveHeap and c = ?c and pre = "[]" and post = "[]"
          and path = "[]", THEN conjunct2, THEN conjunct1, THEN mp]) simp
  have eval: "(case checkMethods ?chk ?c [] (Methods (evolveHeap ! 1)) [] of
         Inl e \<Rightarrow> Inl e
       | Inr c1 \<Rightarrow>
           (case ?chk (c1\<lparr>errors := errors c1 @ [([], ValueToPointerReceiver ''String'')]\<rparr>)
                   (Method.Type ?old) (Method.Type ?new) ([] @ ''.'' @ ''String'') of
              Inl e \<Rightarrow> Inl e
            | Inr c2 \<Rightarrow> checkMethods ?chk c2 [] (Methods (evolveHeap ! 1)) []))
      = Inr \<lparr>info0 = oldInfo, info1 = newInfo, ignore = ignoreNothing,
             checked = {Some 3, Some 5, Some 4},
             errors = [([], ValueToPointerReceiver ''String''),
                       (''.String'', DifferingParameterCount 0 1)], visits = 2\<rparr>"
    by (simp add: evolveHeap_def zeroType_def checkStep_def checkResolved_def checkFunc_def
          Deref_def load_def newContext_def oldInfo_def newInfo_def ignoreNothing_def
          checkKind_def mark_def errorf_def Let_def decimal.simps insert_commute)
  show ?thesis
    using 1 step eval by simp
qed








section \<open>A nil type\<close>

lemma Deref_nil: "Deref h g None = Inl NilDereference"
  by (simp add: Deref_def load_def)

text \<open>
  A nil pointer handed to \<^verbatim>\<open>check\<close> and not skipped as visited panics in \<^verbatim>\<open>Deref\<close>, at
  \<^verbatim>\<open>t.Name\<close>. With \<open>Deref_not_nil\<close>: whenever the test \<^verbatim>\<open>t0 == nil || t1 == nil\<close> is
  reached it is false.
\<close>

lemma check_nil_panics:
  "\<not> (None \<in> checked c \<and> t1 \<in> checked c) \<Longrightarrow>
     check (Suc n) unq h c None t1 path = Inl NilDereference"
  "\<not> (t0 \<in> checked c \<and> None \<in> checked c) \<Longrightarrow> Deref h (info0 c) t0 = Inr d0 \<Longrightarrow>
     check (Suc n) unq h c t0 None path = Inl NilDereference"
  by (auto simp: checkStep_def checkResolved_def Let_def Deref_nil)

text \<open>
  The part of \<^verbatim>\<open>check\<close> after the ignore test, were it handed a nil: "nil type found"
  is appended, and the next statement reads \<^verbatim>\<open>t0.Kind\<close> or \<^verbatim>\<open>t1.Kind\<close> through the nil.
\<close>

lemma checkResolved_nil:
  "checkResolved chk unq h c None t1 path = Inl NilDereference"
  "load h t0 = Inr v0 \<Longrightarrow> checkResolved chk unq h c t0 None path = Inl NilDereference"
  by (simp_all add: checkResolved_def load_def)

text \<open>
  C2, at a pointer type whose element is nil, compared with itself: the traversal does
  not record "nil type found" and go on, it ends in the nil dereference.
\<close>

theorem Check_nil_elem_panics:
  "Check Unquote_plain nilElemHeap \<lparr>Types = []\<rparr> \<lparr>Types = []\<rparr> (Some 0) (Some 0) ignoreNothing
     = Inl NilDereference"
  by code_simp

section \<open>Termination\<close>

lemma finite_nodes [simp]: "finite (nodes h)"
  by (simp add: nodes_def)

lemma card_nodes [simp]: "card (nodes h) = length h"
  by (simp add: nodes_def card_image)

lemma unvisited_mono: "checked c \<subseteq> checked c' \<Longrightarrow> unvisited h c' \<le> unvisited h c"
  unfolding unvisited_def by (intro card_mono) auto

lemma grows_refl: "grows h c c"
  by (simp add: grows_def)

lemma grows_trans: "grows h a b \<Longrightarrow> grows h b c \<Longrightarrow> grows h a c"
  by (auto simp: grows_def)

lemma grows_errorf: "grows h c (errorf c p m)"
  by (simp add: grows_def unvisited_def)

lemma grows_unvisited: "grows h c c' \<Longrightarrow> unvisited h c' \<le> unvisited h c"
  by (auto simp: grows_def intro: unvisited_mono)

lemma checkTagCompat_simps [simp]:
  "info0 (checkTagCompat unq c tag0 tag1 path) = info0 c"
  "info1 (checkTagCompat unq c tag0 tag1 path) = info1 c"
  "ignore (checkTagCompat unq c tag0 tag1 path) = ignore c"
  "checked (checkTagCompat unq c tag0 tag1 path) = checked c"
  "visits (checkTagCompat unq c tag0 tag1 path) = visits c"
  by (simp_all add: checkTagCompat_def Let_def foldl_checkTag)

lemma within_Inl [simp]: "within F P (Inl e) \<longleftrightarrow> e \<in> F"
  by (simp add: within_def)

lemma within_Inr [simp]: "within F P (Inr c) \<longleftrightarrow> P c"
  by (simp add: within_def)

lemma within_bind:
  "within F P r \<Longrightarrow> (\<And>c. r = Inr c \<Longrightarrow> P c \<Longrightarrow> within F P (f c)) \<Longrightarrow>
     within F P (case r of Inl e \<Rightarrow> Inl e | Inr c \<Rightarrow> f c)"
  by (cases r) simp_all

lemma checkTagCompat_keeps:
  assumes err: "\<And>c p m. P c \<Longrightarrow> P (errorf c p m)"
  shows "P c \<Longrightarrow> P (checkTagCompat unq c tag0 tag1 path)"
proof -
  have "P c \<Longrightarrow> P (foldl (checkTag path tags1) c tags0)" for tags1 tags0
  proof (induction tags0 arbitrary: c)
    case Nil
    then show ?case by simp
  next
    case (Cons e es)
    have "P (checkTag path tags1 c e)"
      using Cons.prems by (simp add: checkTag_def Let_def err)
    then show ?case
      using Cons.IH by simp
  qed
  then show "P c \<Longrightarrow> P (checkTagCompat unq c tag0 tag1 path)"
    by (simp add: checkTagCompat_def Let_def)
qed

lemma checkParams_within:
  assumes chk: "\<And>c a b p. P c \<Longrightarrow> within F P (chk c a b p)"
    and F: "IndexOutOfRange \<in> F"
  shows "P c \<Longrightarrow> within F P (checkParams chk c xs ys path i)"
proof (induction xs arbitrary: c ys i)
  case Nil
  then show ?case by simp
next
  case (Cons x xs)
  show ?case
  proof (cases ys)
    case Nil
    then show ?thesis by (simp add: F)
  next
    case (Cons y ys')
    show ?thesis
      unfolding Cons checkParams.simps
      by (rule within_bind) (auto intro: chk Cons.prems Cons.IH)
  qed
qed

lemma fieldByName_Inl: "fieldByName fs name = Inl e \<Longrightarrow> e = NilDereference"
  by (induction fs name rule: fieldByName.induct) (auto split: if_splits)

lemma checkFields_within:
  assumes chk: "\<And>c a b p. P c \<Longrightarrow> within F P (chk c a b p)"
    and err: "\<And>c p m. P c \<Longrightarrow> P (errorf c p m)"
    and F: "NilDereference \<in> F"
  shows "P c \<Longrightarrow> within F P (checkFields chk unq c fs v1 path)"
proof (induction fs arbitrary: c)
  case Nil
  then show ?case by simp
next
  case (Cons x fs)
  show ?case
  proof (cases x)
    case None
    then show ?thesis by (simp add: F)
  next
    case (Some f0)
    have nil: "FieldByName v1 (Field.Name f0) = Inl e \<Longrightarrow> e = NilDereference" for e
      unfolding FieldByName_def by (rule fieldByName_Inl)
    show ?thesis
    proof (cases "FieldByName v1 (Field.Name f0)")
      case (Inl e)
      then show ?thesis using nil [OF Inl] by (simp add: Some F)
    next
      case (Inr r)
      show ?thesis
      proof (cases r)
        case None
        then show ?thesis
          using Inr Some by (simp add: Cons.IH err Cons.prems)
      next
        case (Some f1)
        have "within F P
           (case chk c (Field.Type f0) (Field.Type f1) (path @ ''.'' @ Field.Name f0) of
              Inl e \<Rightarrow> Inl e
            | Inr ctxt \<Rightarrow>
                checkFields chk unq
                  (checkTagCompat unq ctxt (Tag f0) (Tag f1) (path @ ''.'' @ Field.Name f0))
                  fs v1 path)"
          by (rule within_bind) (auto intro: chk Cons.prems Cons.IH checkTagCompat_keeps err)
        then show ?thesis
          using Inr Some \<open>x = Some f0\<close> by simp
      qed
    qed
  qed
qed

lemma checkMethods_within:
  assumes chk: "\<And>c a b p. P c \<Longrightarrow> within F P (chk c a b p)"
    and err: "\<And>c p m. P c \<Longrightarrow> P (errorf c p m)"
    and F: "NilDereference \<in> F"
  shows "P c \<Longrightarrow> within F P (checkMethods chk c ms0 ms1 path)"
proof (induction ms0 arbitrary: c)
  case Nil
  then show ?case by simp
next
  case (Cons x ms0)
  obtain name m0 where x: "x = (name, m0)" by (cases x)
  show ?case
  proof (cases "map_of ms1 name")
    case None
    then show ?thesis
      by (simp add: x Cons.IH err Cons.prems)
  next
    case (Some m1)
    show ?thesis
    proof (cases m0)
      case None
      then show ?thesis using Some by (simp add: x F)
    next
      case m0: (Some m0v)
      show ?thesis
      proof (cases m1)
        case None
        then show ?thesis using Some m0 by (simp add: x F)
      next
        case m1: (Some m1v)
        have "within F P
           (case chk (if \<not> PtrReceiver m0v \<and> PtrReceiver m1v
                      then errorf c path (ValueToPointerReceiver name) else c)
                   (Method.Type m0v) (Method.Type m1v) (path @ ''.'' @ name) of
              Inl e \<Rightarrow> Inl e
            | Inr ctxt \<Rightarrow> checkMethods chk ctxt ms0 ms1 path)"
          by (rule within_bind) (auto intro: chk Cons.prems Cons.IH err)
        then show ?thesis
          using Some m0 m1 by (simp add: x)
      qed
    qed
  qed
qed

lemma checkFunc_within:
  assumes chk: "\<And>c a b p. P c \<Longrightarrow> within F P (chk c a b p)"
    and err: "\<And>c p m. P c \<Longrightarrow> P (errorf c p m)"
    and F: "IndexOutOfRange \<in> F"
  shows "P c \<Longrightarrow> within F P (checkFunc chk c v0 v1 path)"
  unfolding checkFunc_def
  by (intro within_bind)
     (auto intro!: within_bind checkParams_within chk err F split: if_splits)

lemma checkKind_within:
  assumes chk: "\<And>c a b p. P c \<Longrightarrow> within F P (chk c a b p)"
    and err: "\<And>c p m. P c \<Longrightarrow> P (errorf c p m)"
    and F: "IndexOutOfRange \<in> F" "NilDereference \<in> F"
  shows "P c \<Longrightarrow> within F P (checkKind chk unq c v0 v1 path)"
  unfolding checkKind_def
  by (auto intro!: within_bind checkFunc_within checkFields_within chk err F)

lemma load_Inr: "load h p = Inr v \<longleftrightarrow> (\<exists>a. p = Some a \<and> a < length h \<and> v = h ! a)"
  by (cases p) (auto simp: load_def)

lemma load_Inl: "load h p = Inl e \<Longrightarrow> e = NilDereference \<or> e = Dangling"
  by (cases p) (auto simp: load_def split: if_splits)

lemma Deref_Inr: "Deref h g t = Inr d \<Longrightarrow> \<exists>a. t = Some a \<and> a < length h \<and> d \<noteq> None"
  by (auto simp: Deref_def load_Inr split: sum.splits option.splits if_splits)

lemma Deref_Inl: "Deref h g t = Inl e \<Longrightarrow> e \<noteq> OutOfFuel \<and> e \<noteq> IndexOutOfRange"
  by (auto simp: Deref_def split: sum.splits option.splits if_splits dest: load_Inl)

lemma checkStep_skip:
  "t0 \<in> checked c \<and> t1 \<in> checked c \<Longrightarrow> checkStep chk unq h c t0 t1 path = Inr c"
  by (simp add: checkStep_def checkResolved_def)

lemma checkStep_within:
  assumes chk: "\<And>x a b p. P x \<Longrightarrow> within F P (chk x a b p)"
    and err: "\<And>x p m. P x \<Longrightarrow> P (errorf x p m)"
    and F: "- {OutOfFuel} \<subseteq> F"
    and new: "\<not> (t0 \<in> checked c \<and> t1 \<in> checked c)"
    and marked: "\<And>a0 a1. t0 = Some a0 \<Longrightarrow> t1 = Some a1 \<Longrightarrow> a0 < length h \<Longrightarrow> a1 < length h \<Longrightarrow>
        P (mark c t0 t1)"
  shows "within F P (checkStep chk unq h c t0 t1 path)"
proof (cases "Deref h (info0 c) t0")
  case (Inl e)
  then show ?thesis
    using new F Deref_Inl [OF Inl] by (auto simp: checkStep_def checkResolved_def Let_def)
next
  case d0: (Inr d0)
  show ?thesis
  proof (cases "Deref h (info1 c) t1")
    case (Inl e)
    then show ?thesis
      using new F d0 Deref_Inl [OF Inl] by (auto simp: checkStep_def checkResolved_def Let_def)
  next
    case d1: (Inr d1)
    from Deref_Inr [OF d0] obtain a0 where a0: "t0 = Some a0" "a0 < length h" "d0 \<noteq> None"
      by blast
    from Deref_Inr [OF d1] obtain a1 where a1: "t1 = Some a1" "a1 < length h" "d1 \<noteq> None"
      by blast
    have P1: "P (mark c t0 t1)"
      using a0 a1 by (intro marked)
    have nn: "d0 \<noteq> None" "d1 \<noteq> None"
      using a0 a1 by simp_all
    show ?thesis
    proof (cases "ignore c h (info0 c) d0 \<or> ignore c h (info1 c) d1")
      case True
      then show ?thesis
        using new d0 d1 P1 by (auto simp: checkStep_def checkResolved_def Let_def)
    next
      case ign: False
      show ?thesis
      proof (cases "load h d0")
        case (Inl e)
        then show ?thesis
          using new d0 d1 ign nn F load_Inl [OF Inl] by (auto simp: checkStep_def checkResolved_def Let_def)
      next
        case v0: (Inr v0)
        show ?thesis
        proof (cases "load h d1")
          case (Inl e)
          then show ?thesis
            using new d0 d1 ign nn v0 F load_Inl [OF Inl] by (auto simp: checkStep_def checkResolved_def Let_def)
        next
          case v1: (Inr v1)
          have F': "IndexOutOfRange \<in> F" "NilDereference \<in> F"
            using F by auto
          have rest: "within F P
             (case checkKind chk unq (mark c t0 t1) v0 v1 path of
                Inl e \<Rightarrow> Inl e
              | Inr ctxt \<Rightarrow> checkMethods chk ctxt (Methods v0) (Methods v1) path)"
            by (rule within_bind)
               (auto intro!: checkKind_within checkMethods_within chk err F' P1)
          show ?thesis
            using new d0 d1 ign nn v0 v1 rest P1
            by (auto simp: checkStep_def checkResolved_def Let_def err)
        qed
      qed
    qed
  qed
qed

lemma unvisited_mark:
  assumes "\<not> (t0 \<in> checked c \<and> t1 \<in> checked c)" and "t0 \<in> nodes h" and "t1 \<in> nodes h"
  shows "unvisited h (mark c t0 t1) < unvisited h c"
proof -
  have "nodes h - insert t1 (insert t0 (checked c)) \<subset> nodes h - checked c"
    using assms by auto
  then show ?thesis
    unfolding unvisited_def by (simp add: psubset_card_mono)
qed

lemma grows_mark:
  assumes "\<not> (t0 \<in> checked c \<and> t1 \<in> checked c)" and "t0 \<in> nodes h" and "t1 \<in> nodes h"
  shows "grows h c (mark c t0 t1)"
  using unvisited_mark [OF assms] by (auto simp: grows_def)

lemma Some_in_nodes: "a < length h \<Longrightarrow> Some a \<in> nodes h"
  by (simp add: nodes_def)

lemma checkStep_grows:
  assumes chk: "\<And>x a b p x'. chk x a b p = Inr x' \<Longrightarrow> grows h x x'"
    and r: "checkStep chk unq h c t0 t1 path = Inr c'"
  shows "grows h c c'"
proof (cases "t0 \<in> checked c \<and> t1 \<in> checked c")
  case True
  then show ?thesis
    using r by (simp add: checkStep_skip grows_refl)
next
  case False
  have "within UNIV (grows h c) (checkStep chk unq h c t0 t1 path)"
  proof (rule checkStep_within [OF _ _ _ False])
    fix x a b p assume "grows h c x"
    then show "within UNIV (grows h c) (chk x a b p)"
      by (cases "chk x a b p") (auto dest: chk intro: grows_trans)
  next
    fix x p m assume "grows h c x"
    then show "grows h c (errorf x p m)"
      by (blast intro: grows_trans grows_errorf)
  next
    show "- {OutOfFuel} \<subseteq> UNIV" by simp
  next
    fix a0 a1 assume "t0 = Some a0" "t1 = Some a1" "a0 < length h" "a1 < length h"
    then show "grows h c (mark c t0 t1)"
      using False by (intro grows_mark) (auto intro: Some_in_nodes)
  qed
  then show ?thesis
    using r by simp
qed

lemma check_grows: "check n unq h c t0 t1 path = Inr c' \<Longrightarrow> grows h c c'"
proof (induction n arbitrary: c t0 t1 path c')
  case 0
  then show ?case by simp
next
  case (Suc n)
  show ?case
  proof (rule checkStep_grows)
    show "check n unq h x a b p = Inr x' \<Longrightarrow> grows h x x'" for x a b p x'
      by (rule Suc.IH)
    show "checkStep (check n unq h) unq h c t0 t1 path = Inr c'"
      using Suc.prems by simp
  qed
qed

lemma check_fuel_enough:
  "unvisited h c < n \<Longrightarrow> check n unq h c t0 t1 path \<noteq> Inl OutOfFuel"
proof (induction n arbitrary: c t0 t1 path)
  case 0
  then show ?case by simp
next
  case (Suc n)
  show ?case
  proof (cases "t0 \<in> checked c \<and> t1 \<in> checked c")
    case True
    then show ?thesis by (simp add: checkStep_skip)
  next
    case False
    have "within (- {OutOfFuel}) (\<lambda>x. unvisited h x < n)
            (checkStep (check n unq h) unq h c t0 t1 path)"
    proof (rule checkStep_within [OF _ _ _ False])
      fix x a b p assume x: "unvisited h x < n"
      show "within (- {OutOfFuel}) (\<lambda>x. unvisited h x < n) (check n unq h x a b p)"
      proof (cases "check n unq h x a b p")
        case (Inl e)
        then show ?thesis using Suc.IH [OF x, of a b p] by auto
      next
        case (Inr x')
        then show ?thesis
          using grows_unvisited [OF check_grows [OF Inr]] x by simp
      qed
    next
      fix x :: checkContext and p m assume "unvisited h x < n"
      then show "unvisited h (errorf x p m) < n"
        by (simp add: unvisited_def)
    next
      show "- {OutOfFuel} \<subseteq> - {OutOfFuel}" by simp
    next
      fix a0 a1 assume "t0 = Some a0" "t1 = Some a1" "a0 < length h" "a1 < length h"
      then have "unvisited h (mark c t0 t1) < unvisited h c"
        using False by (intro unvisited_mark) (auto intro: Some_in_nodes)
      then show "unvisited h (mark c t0 t1) < n"
        using Suc.prems by simp
    qed
    then show ?thesis
      by (cases "checkStep (check n unq h) unq h c t0 t1 path") auto
  qed
qed

lemma bind_more:
  assumes "(case r of Inl e \<Rightarrow> Inl e | Inr c \<Rightarrow> f c) \<noteq> Inl OutOfFuel"
    and "r \<noteq> Inl OutOfFuel \<Longrightarrow> r' = r"
    and "\<And>c. r = Inr c \<Longrightarrow> f c \<noteq> Inl OutOfFuel \<Longrightarrow> f' c = f c"
  shows "(case r' of Inl e \<Rightarrow> Inl e | Inr c \<Rightarrow> f' c) = (case r of Inl e \<Rightarrow> Inl e | Inr c \<Rightarrow> f c)"
  using assms by (cases r) auto

lemma checkParams_more:
  assumes ext: "\<And>c a b p. chk c a b p \<noteq> Inl OutOfFuel \<Longrightarrow> chk' c a b p = chk c a b p"
  shows "checkParams chk c xs ys path i \<noteq> Inl OutOfFuel \<Longrightarrow>
     checkParams chk' c xs ys path i = checkParams chk c xs ys path i"
proof (induction xs arbitrary: c ys i)
  case Nil
  show ?case by simp
next
  case (Cons x xs)
  show ?case
  proof (cases ys)
    case Nil
    then show ?thesis by simp
  next
    case (Cons y ys')
    show ?thesis
      using Cons.prems unfolding Cons checkParams.simps
      by (rule bind_more) (auto intro: ext Cons.IH)
  qed
qed

lemma checkFields_more:
  assumes ext: "\<And>c a b p. chk c a b p \<noteq> Inl OutOfFuel \<Longrightarrow> chk' c a b p = chk c a b p"
  shows "checkFields chk unq c fs v1 path \<noteq> Inl OutOfFuel \<Longrightarrow>
     checkFields chk' unq c fs v1 path = checkFields chk unq c fs v1 path"
proof (induction fs arbitrary: c)
  case Nil
  show ?case by simp
next
  case (Cons x fs)
  show ?case
  proof (cases x)
    case None
    then show ?thesis by simp
  next
    case (Some f0)
    show ?thesis
    proof (cases "FieldByName v1 (Field.Name f0)")
      case (Inl e)
      then show ?thesis by (simp add: Some)
    next
      case (Inr r)
      show ?thesis
      proof (cases r)
        case None
        then show ?thesis
          using Inr Some Cons.prems by (simp add: Cons.IH)
      next
        case f1: (Some f1)
        have "(case chk' c (Field.Type f0) (Field.Type f1) (path @ ''.'' @ Field.Name f0) of
              Inl e \<Rightarrow> Inl e
            | Inr ctxt \<Rightarrow>
                checkFields chk' unq
                  (checkTagCompat unq ctxt (Tag f0) (Tag f1) (path @ ''.'' @ Field.Name f0))
                  fs v1 path)
          = (case chk c (Field.Type f0) (Field.Type f1) (path @ ''.'' @ Field.Name f0) of
              Inl e \<Rightarrow> Inl e
            | Inr ctxt \<Rightarrow>
                checkFields chk unq
                  (checkTagCompat unq ctxt (Tag f0) (Tag f1) (path @ ''.'' @ Field.Name f0))
                  fs v1 path)"
          using Cons.prems Inr Some f1
          by (intro bind_more) (auto intro: ext Cons.IH)
        then show ?thesis
          using Inr Some f1 by simp
      qed
    qed
  qed
qed

lemma checkMethods_more:
  assumes ext: "\<And>c a b p. chk c a b p \<noteq> Inl OutOfFuel \<Longrightarrow> chk' c a b p = chk c a b p"
  shows "checkMethods chk c ms0 ms1 path \<noteq> Inl OutOfFuel \<Longrightarrow>
     checkMethods chk' c ms0 ms1 path = checkMethods chk c ms0 ms1 path"
proof (induction ms0 arbitrary: c)
  case Nil
  show ?case by simp
next
  case (Cons x ms0)
  obtain name m0 where x: "x = (name, m0)" by (cases x)
  show ?case
  proof (cases "map_of ms1 name")
    case None
    then show ?thesis
      using Cons.prems by (simp add: x Cons.IH)
  next
    case (Some m1)
    show ?thesis
    proof (cases m0)
      case None
      then show ?thesis using Some by (simp add: x)
    next
      case m0: (Some m0v)
      show ?thesis
      proof (cases m1)
        case None
        then show ?thesis using Some m0 by (simp add: x)
      next
        case m1: (Some m1v)
        have "(case chk' (if \<not> PtrReceiver m0v \<and> PtrReceiver m1v
                      then errorf c path (ValueToPointerReceiver name) else c)
                   (Method.Type m0v) (Method.Type m1v) (path @ ''.'' @ name) of
              Inl e \<Rightarrow> Inl e
            | Inr ctxt \<Rightarrow> checkMethods chk' ctxt ms0 ms1 path)
          = (case chk (if \<not> PtrReceiver m0v \<and> PtrReceiver m1v
                      then errorf c path (ValueToPointerReceiver name) else c)
                   (Method.Type m0v) (Method.Type m1v) (path @ ''.'' @ name) of
              Inl e \<Rightarrow> Inl e
            | Inr ctxt \<Rightarrow> checkMethods chk ctxt ms0 ms1 path)"
          using Cons.prems Some m0 m1 x
          by (intro bind_more) (auto intro: ext Cons.IH)
        then show ?thesis
          using Some m0 m1 by (simp add: x)
      qed
    qed
  qed
qed

lemma checkFunc_more:
  assumes ext: "\<And>c a b p. chk c a b p \<noteq> Inl OutOfFuel \<Longrightarrow> chk' c a b p = chk c a b p"
    and r: "checkFunc chk c v0 v1 path \<noteq> Inl OutOfFuel"
  shows "checkFunc chk' c v0 v1 path = checkFunc chk c v0 v1 path"
proof -
  let ?ins = "\<lambda>chk. (if length (In v0) \<noteq> length (In v1)
         then Inr (errorf c path (DifferingParameterCount (length (In v0)) (length (In v1))))
         else
           (case checkParams chk c (In v0) (In v1) path 0 of
              Inl e \<Rightarrow> Inl e
            | Inr ctxt \<Rightarrow>
                Inr (if Variadic v0 \<noteq> Variadic v1
                     then errorf ctxt path VariadicStatusChanged else ctxt)))"
  let ?outs = "\<lambda>chk ctxt. if length (Out v0) \<noteq> length (Out v1)
          then Inr (errorf ctxt path
                      (DifferingOutParameterCount (length (Out v0)) (length (Out v1))))
          else checkParams chk ctxt (Out v0) (Out v1) path 0"
  have ins: "?ins chk' = ?ins chk" if "?ins chk \<noteq> Inl OutOfFuel"
  proof (cases "length (In v0) \<noteq> length (In v1)")
    case True
    then show ?thesis by simp
  next
    case False
    have "checkParams chk c (In v0) (In v1) path 0 \<noteq> Inl OutOfFuel"
      using that False by (auto split: sum.splits)
    then have "checkParams chk' c (In v0) (In v1) path 0 = checkParams chk c (In v0) (In v1) path 0"
      by (intro checkParams_more ext)
    then show ?thesis by simp
  qed
  have outs: "?outs chk' x = ?outs chk x" if "?outs chk x \<noteq> Inl OutOfFuel" for x
  proof (cases "length (Out v0) \<noteq> length (Out v1)")
    case True
    then show ?thesis by simp
  next
    case False
    then have "checkParams chk x (Out v0) (Out v1) path 0 \<noteq> Inl OutOfFuel"
      using that by simp
    then have "checkParams chk' x (Out v0) (Out v1) path 0 = checkParams chk x (Out v0) (Out v1) path 0"
      by (intro checkParams_more ext)
    then show ?thesis by simp
  qed
  have "(case ?ins chk' of Inl e \<Rightarrow> Inl e | Inr ctxt \<Rightarrow> ?outs chk' ctxt)
      = (case ?ins chk of Inl e \<Rightarrow> Inl e | Inr ctxt \<Rightarrow> ?outs chk ctxt)"
  proof (rule bind_more)
    show "(case ?ins chk of Inl e \<Rightarrow> Inl e | Inr ctxt \<Rightarrow> ?outs chk ctxt) \<noteq> Inl OutOfFuel"
      using r unfolding checkFunc_def .
    show "?ins chk \<noteq> Inl OutOfFuel \<Longrightarrow> ?ins chk' = ?ins chk"
      by (rule ins)
    show "?outs chk x \<noteq> Inl OutOfFuel \<Longrightarrow> ?outs chk' x = ?outs chk x" for x
      by (rule outs)
  qed
  then show ?thesis
    unfolding checkFunc_def .
qed

lemma checkKind_more:
  assumes ext: "\<And>c a b p. chk c a b p \<noteq> Inl OutOfFuel \<Longrightarrow> chk' c a b p = chk c a b p"
    and r: "checkKind chk unq c v0 v1 path \<noteq> Inl OutOfFuel"
  shows "checkKind chk' unq c v0 v1 path = checkKind chk unq c v0 v1 path"
proof -
  consider (elem) "Kind v0 = Array \<or> Kind v0 = Slice \<or> Kind v0 = Chan \<or> Kind v0 = Ptr"
    | (map) "Kind v0 = Map" | (func) "Kind v0 = Func" | (struct) "Kind v0 = Struct"
    | (other) "Kind v0 \<notin> {Array, Slice, Chan, Ptr, Map, Func, Struct}"
    by auto
  then show ?thesis
  proof cases
    case elem
    then show ?thesis
      using r by (auto simp: checkKind_def intro: ext)
  next
    case map
    have "(case chk' c (Key v0) (Key v1) (path @ ''[key]'') of
           Inl e \<Rightarrow> Inl e
         | Inr ctxt \<Rightarrow> chk' ctxt (Elem v0) (Elem v1) (path @ ''[]''))
       = (case chk c (Key v0) (Key v1) (path @ ''[key]'') of
           Inl e \<Rightarrow> Inl e
         | Inr ctxt \<Rightarrow> chk ctxt (Elem v0) (Elem v1) (path @ ''[]''))"
      using r map by (intro bind_more) (auto simp: checkKind_def intro: ext)
    then show ?thesis
      using map by (simp add: checkKind_def)
  next
    case func
    then show ?thesis
      using r by (simp add: checkKind_def checkFunc_more [OF ext])
  next
    case struct
    then show ?thesis
      using r by (simp add: checkKind_def checkFields_more [OF ext])
  next
    case other
    then show ?thesis
      by (simp add: checkKind_def)
  qed
qed

lemma checkStep_more:
  assumes ext: "\<And>c a b p. chk c a b p \<noteq> Inl OutOfFuel \<Longrightarrow> chk' c a b p = chk c a b p"
    and r: "checkStep chk unq h c t0 t1 path \<noteq> Inl OutOfFuel"
  shows "checkStep chk' unq h c t0 t1 path = checkStep chk unq h c t0 t1 path"
proof -
  have rest: "(case checkKind chk' unq x v0 v1 path of
               Inl e \<Rightarrow> Inl e
             | Inr ctxt \<Rightarrow> checkMethods chk' ctxt (Methods v0) (Methods v1) path)
      = (case checkKind chk unq x v0 v1 path of
               Inl e \<Rightarrow> Inl e
             | Inr ctxt \<Rightarrow> checkMethods chk ctxt (Methods v0) (Methods v1) path)"
    if "(case checkKind chk unq x v0 v1 path of
               Inl e \<Rightarrow> Inl e
             | Inr ctxt \<Rightarrow> checkMethods chk ctxt (Methods v0) (Methods v1) path) \<noteq> Inl OutOfFuel"
    for x v0 v1
    using that by (rule bind_more) (auto intro: checkKind_more checkMethods_more ext)
  show ?thesis
  proof (cases "t0 \<in> checked c \<and> t1 \<in> checked c")
    case True
    then show ?thesis by (simp add: checkStep_def checkResolved_def)
  next
    case new: False
    show ?thesis
    proof (cases "Deref h (info0 c) t0")
      case (Inl e)
      then show ?thesis using new by (simp add: checkStep_def checkResolved_def Let_def)
    next
      case d0: (Inr d0)
      show ?thesis
      proof (cases "Deref h (info1 c) t1")
        case (Inl e)
        then show ?thesis using new d0 by (simp add: checkStep_def checkResolved_def Let_def)
      next
        case d1: (Inr d1)
        show ?thesis
        proof (cases "ignore c h (info0 c) d0 \<or> ignore c h (info1 c) d1")
          case True
          then show ?thesis using new d0 d1 by (auto simp: checkStep_def checkResolved_def Let_def)
        next
          case ign: False
          have nn: "d0 \<noteq> None" "d1 \<noteq> None"
            using Deref_Inr [OF d0] Deref_Inr [OF d1] by auto
          show ?thesis
          proof (cases "load h d0")
            case (Inl e)
            then show ?thesis using new d0 d1 ign nn by (simp add: checkStep_def checkResolved_def Let_def)
          next
            case v0: (Inr v0)
            show ?thesis
            proof (cases "load h d1")
              case (Inl e)
              then show ?thesis using new d0 d1 ign nn v0 by (simp add: checkStep_def checkResolved_def Let_def)
            next
              case v1: (Inr v1)
              have l: "checkStep chk unq h c t0 t1 path =
                  (if Kind v0 \<noteq> Kind v1
                   then Inr (errorf (mark c t0 t1) path (IncompatibleKinds (Kind v0) (Kind v1)))
                   else
                    (case checkKind chk unq (mark c t0 t1) v0 v1 path of
                       Inl e \<Rightarrow> Inl e
                     | Inr ctxt \<Rightarrow> checkMethods chk ctxt (Methods v0) (Methods v1) path))" for chk
                using new d0 d1 ign nn v0 v1 by (auto simp: checkStep_def checkResolved_def Let_def)
              show ?thesis
              proof (cases "Kind v0 = Kind v1")
                case False
                then show ?thesis
                  unfolding l by simp
              next
                case True
                show ?thesis
                  using r unfolding l using True by (simp add: rest)
              qed
            qed
          qed
        qed
      qed
    qed
  qed
qed

lemma check_Suc_fuel:
  "check n unq h c t0 t1 path \<noteq> Inl OutOfFuel \<Longrightarrow>
     check (Suc n) unq h c t0 t1 path = check n unq h c t0 t1 path"
proof (induction n arbitrary: c t0 t1 path)
  case 0
  then show ?case by simp
next
  case (Suc n)
  have "checkStep (check (Suc n) unq h) unq h c t0 t1 path
      = checkStep (check n unq h) unq h c t0 t1 path"
    using Suc.prems by (intro checkStep_more Suc.IH) simp_all
  then show ?case by simp
qed

lemma check_more_fuel:
  "check n unq h c t0 t1 path \<noteq> Inl OutOfFuel \<Longrightarrow>
     check (n + k) unq h c t0 t1 path = check n unq h c t0 t1 path"
proof (induction k)
  case 0
  show ?case by simp
next
  case (Suc k)
  then have "check (n + k) unq h c t0 t1 path \<noteq> Inl OutOfFuel" by simp
  from check_Suc_fuel [OF this] Suc show ?case by simp
qed

lemma checkStep_marks:
  assumes chk: "\<And>x a b p x'. chk x a b p = Inr x' \<Longrightarrow> grows h x x'"
    and r: "checkStep chk unq h c t0 t1 path = Inr c'"
  shows "t0 \<in> checked c' \<and> t1 \<in> checked c'"
proof (cases "t0 \<in> checked c \<and> t1 \<in> checked c")
  case True
  then show ?thesis
    using r by (simp add: checkStep_skip)
next
  case False
  have "within UNIV (\<lambda>x. t0 \<in> checked x \<and> t1 \<in> checked x) (checkStep chk unq h c t0 t1 path)"
  proof (rule checkStep_within [OF _ _ _ False])
    fix x :: checkContext and a b p assume x: "t0 \<in> checked x \<and> t1 \<in> checked x"
    show "within UNIV (\<lambda>x. t0 \<in> checked x \<and> t1 \<in> checked x) (chk x a b p)"
    proof (cases "chk x a b p")
      case (Inl e)
      then show ?thesis by simp
    next
      case (Inr x')
      from chk [OF Inr] x show ?thesis
        by (auto simp: Inr grows_def)
    qed
  qed simp_all
  then show ?thesis
    using r by simp
qed

lemma check_marks:
  "check n unq h c t0 t1 path = Inr c' \<Longrightarrow> t0 \<in> checked c' \<and> t1 \<in> checked c'"
proof (cases n)
  case 0
  then show "check n unq h c t0 t1 path = Inr c' \<Longrightarrow> ?thesis" by simp
next
  case (Suc m)
  assume "check n unq h c t0 t1 path = Inr c'"
  then have "checkStep (check m unq h) unq h c t0 t1 path = Inr c'"
    by (simp add: Suc)
  then show ?thesis
    by (rule checkStep_marks [rotated]) (rule check_grows)
qed

lemma unvisited_newContext: "unvisited h (newContext i0 i1 ign) = length h"
  by (simp add: unvisited_def newContext_def)

text \<open>
  C4. \<^verbatim>\<open>Check\<close> terminates, whatever the two graphs and the roots: the traversal never
  needs more nested calls than the store has nodes, plus one, and with a larger budget
  its result is the same. The mechanism: a call on two visited pointers returns at once
  and leaves the context as it is; a call that returns has both its pointers in the
  visited set, the visited set only grows, and every call that got past the visited
  test (counted by \<open>visits\<close>) has added a node to the visited set that was not in it. So
  when the traversal returns, at most as many calls got past the visited test as the
  store has nodes. (A traversal that ends in a panic has ended as well.)
\<close>

theorem Check_terminates:
  "Check unq h i0 i1 t0 t1 ign \<noteq> Inl OutOfFuel
   \<and> check (Suc (length h) + k) unq h (newContext i0 i1 ign) t0 t1 path \<noteq> Inl OutOfFuel
   \<and> check (Suc (length h) + k) unq h (newContext i0 i1 ign) t0 t1 path
       = check (Suc (length h)) unq h (newContext i0 i1 ign) t0 t1 path
   \<and> (a \<in> checked c \<and> b \<in> checked c \<longrightarrow> check (Suc n) unq h c a b p = Inr c)
   \<and> (check n unq h c a b p = Inr c' \<longrightarrow>
         a \<in> checked c' \<and> b \<in> checked c' \<and> checked c \<subseteq> checked c' \<and>
         visits c' + card (Some ` {..<length h} - checked c')
           \<le> visits c + card (Some ` {..<length h} - checked c))
   \<and> (check (Suc (length h)) unq h (newContext i0 i1 ign) t0 t1 path = Inr c' \<longrightarrow>
         visits c' \<le> length h)"
proof (intro conjI impI)
  have fuel: "check (Suc (length h)) unq h (newContext i0 i1 ign) a b q \<noteq> Inl OutOfFuel" for a b q
    by (rule check_fuel_enough) (simp add: unvisited_newContext)
  show "Check unq h i0 i1 t0 t1 ign \<noteq> Inl OutOfFuel"
    using fuel [of t0 t1 "[]"] by (auto simp: Check_def split: sum.splits)
  show eq: "check (Suc (length h) + k) unq h (newContext i0 i1 ign) t0 t1 path
       = check (Suc (length h)) unq h (newContext i0 i1 ign) t0 t1 path"
    by (rule check_more_fuel) (rule fuel)
  show "check (Suc (length h) + k) unq h (newContext i0 i1 ign) t0 t1 path \<noteq> Inl OutOfFuel"
    unfolding eq by (rule fuel)
next
  assume "a \<in> checked c \<and> b \<in> checked c"
  then show "check (Suc n) unq h c a b p = Inr c"
    by (simp add: checkStep_skip)
next
  assume r: "check n unq h c a b p = Inr c'"
  show "a \<in> checked c'" "b \<in> checked c'"
    using check_marks [OF r] by simp_all
  show "checked c \<subseteq> checked c'"
    using check_grows [OF r] by (simp add: grows_def)
  show "visits c' + card (Some ` {..<length h} - checked c')
           \<le> visits c + card (Some ` {..<length h} - checked c)"
    using check_grows [OF r] by (simp add: grows_def unvisited_def nodes_def)
next
  assume r: "check (Suc (length h)) unq h (newContext i0 i1 ign) t0 t1 path = Inr c'"
  have "visits c' + unvisited h c' \<le> visits (newContext i0 i1 ign) + unvisited h (newContext i0 i1 ign)"
    using check_grows [OF r] by (simp add: grows_def)
  then show "visits c' \<le> length h"
    by (simp add: unvisited_newContext) (simp add: newContext_def)
qed

lemma allTags_json_next: \<open>allTags Unquote_plain ''json:"next"'' = [(''json'', ''next'')]\<close>
  by code_simp

lemma allTags_empty: \<open>allTags Unquote_plain [] = []\<close>
  by code_simp

text \<open>
  On the self-referential example: eight nodes, eight calls past the visited test.
\<close>

theorem Check_terminates_witness:
  "check (Suc (length nodeHeap) + 5) Unquote_plain nodeHeap
       (newContext nodeInfo nodeInfo ignoreNothing) (Some 0) (Some 0) []
     = Inr \<lparr>info0 = nodeInfo, info1 = nodeInfo, ignore = ignoreNothing,
            checked = {Some 0, Some 1, Some 2, Some 3, Some 4, Some 5, Some 6, Some 7},
            errors = [], visits = 8\<rparr>
   \<and> (8::nat) \<le> length nodeHeap
   \<and> Check Unquote_plain nodeHeap nodeInfo nodeInfo (Some 0) (Some 0) ignoreNothing \<noteq> Inl OutOfFuel"
proof -
  let ?c = "newContext nodeInfo nodeInfo ignoreNothing"
  let ?r = "\<lparr>info0 = nodeInfo, info1 = nodeInfo, ignore = ignoreNothing,
            checked = {Some 0, Some 1, Some 2, Some 3, Some 4, Some 5, Some 6, Some 7},
            errors = [], visits = 8\<rparr>"
  note T = Check_terminates [where h = nodeHeap and unq = Unquote_plain and ?i0.0 = nodeInfo
      and ?i1.0 = nodeInfo and ign = ignoreNothing and ?t0.0 = "Some 0" and ?t1.0 = "Some 0"
      and path = "[]" and k = 5 and c' = ?r]
  have eq: "check (Suc (length nodeHeap) + 5) Unquote_plain nodeHeap ?c (Some 0) (Some 0) []
      = check (Suc (length nodeHeap)) Unquote_plain nodeHeap ?c (Some 0) (Some 0) []"
    by (rule T [THEN conjunct2, THEN conjunct2, THEN conjunct1])
  have len: "length nodeHeap = Suc (Suc (Suc (Suc (Suc (Suc (Suc (Suc 0)))))))"
    by (simp add: nodeHeap_def)
  have eval: "check (Suc (length nodeHeap)) Unquote_plain nodeHeap ?c (Some 0) (Some 0) [] = Inr ?r"
    unfolding len
    by (simp add: nodeHeap_def nodeInfo_def zeroType_def checkStep_def checkResolved_def checkFunc_def
          FieldByName_def allTags_json_next allTags_empty checkTagCompat_def checkTag_def tagValue_def
          Deref_def load_def newContext_def ignoreNothing_def
          checkKind_def mark_def errorf_def Let_def decimal.simps insert_commute)
  have bound: "visits ?r \<le> length nodeHeap"
    by (rule T [THEN conjunct2, THEN conjunct2, THEN conjunct2, THEN conjunct2, THEN conjunct2,
          THEN mp]) (rule eval)
  show ?thesis
    using eq eval bound T [THEN conjunct1] by simp
qed

section \<open>A graph against itself\<close>

lemma map_of_tags_same:
  "distinct (map fst tags) \<Longrightarrow> e \<in> set tags \<Longrightarrow> tagValue tags (fst e) = snd e"
  by (cases e) (simp add: tagValue_def)

lemma checkTagCompat_same: "checkTagCompat unq c tag tag path = c"
proof -
  have "filter (\<lambda>entry. tagValue (allTags unq tag) (fst entry) \<noteq> snd entry) (allTags unq tag) = []"
    by (auto simp: filter_empty_conv dest: map_of_tags_same [OF distinct_allTags])
  then show ?thesis
    by (simp add: checkTagCompat_def Let_def foldl_checkTag)
qed

lemma fieldByName_self:
  "None \<notin> set fs \<Longrightarrow> distinct (map (\<lambda>f. case f of None \<Rightarrow> [] | Some f \<Rightarrow> Field.Name f) fs) \<Longrightarrow>
   Some f \<in> set fs \<Longrightarrow> fieldByName fs (Field.Name f) = Inr (Some f)"
proof (induction fs)
  case Nil
  then show ?case by simp
next
  case (Cons x fs)
  then obtain g where x: "x = Some g" by (cases x) auto
  show ?case
  proof (cases "g = f")
    case True
    then show ?thesis by (simp add: x)
  next
    case False
    then have in_fs: "Some f \<in> set fs" using Cons.prems x by auto
    then have "Field.Name f \<in> set (map (\<lambda>f. case f of None \<Rightarrow> [] | Some f \<Rightarrow> Field.Name f) fs)"
      by force
    then have "Field.Name g \<noteq> Field.Name f"
      using Cons.prems(2) x by auto
    then show ?thesis
      using Cons.IH Cons.prems in_fs by (simp add: x)
  qed
qed

lemma checkParams_self:
  assumes chk: "\<And>c t p. P c \<Longrightarrow> resolvable h g t \<Longrightarrow> within {OutOfFuel} P (chk c t t p)"
  shows "P c \<Longrightarrow> list_all (resolvable h g) ts \<Longrightarrow>
     within {OutOfFuel} P (checkParams chk c ts ts path i)"
proof (induction ts arbitrary: c i)
  case Nil
  then show ?case by simp
next
  case (Cons t ts)
  show ?case
    unfolding checkParams.simps
    by (rule within_bind) (use Cons in \<open>auto intro: chk\<close>)
qed

lemma checkFields_self:
  assumes chk: "\<And>c t p. P c \<Longrightarrow> resolvable h g t \<Longrightarrow> within {OutOfFuel} P (chk c t t p)"
    and look: "\<And>f. Some f \<in> set fs \<Longrightarrow> FieldByName v (Field.Name f) = Inr (Some f)"
  shows "P c \<Longrightarrow> list_all (fieldResolvable h g) fs \<Longrightarrow>
     within {OutOfFuel} P (checkFields chk unq c fs v path)"
  using look
proof (induction fs arbitrary: c)
  case Nil
  then show ?case by simp
next
  case (Cons x fs)
  from Cons.prems(2) obtain f0 where x: "x = Some f0" and r: "resolvable h g (Field.Type f0)"
    by (cases x) (auto simp: fieldResolvable_def)
  have l: "FieldByName v (Field.Name f0) = Inr (Some f0)"
    using Cons.prems(3) x by simp
  have "within {OutOfFuel} P
     (case chk c (Field.Type f0) (Field.Type f0) (path @ ''.'' @ Field.Name f0) of
        Inl e \<Rightarrow> Inl e
      | Inr ctxt \<Rightarrow>
          checkFields chk unq
            (checkTagCompat unq ctxt (Tag f0) (Tag f0) (path @ ''.'' @ Field.Name f0))
            fs v path)"
    by (rule within_bind) (use Cons r in \<open>auto intro: chk simp: checkTagCompat_same\<close>)
  then show ?case
    by (simp add: x l)
qed

lemma checkMethods_self:
  assumes chk: "\<And>c t p. P c \<Longrightarrow> resolvable h g t \<Longrightarrow> within {OutOfFuel} P (chk c t t p)"
    and look: "\<And>name m. (name, m) \<in> set ms \<Longrightarrow> map_of ms1 name = Some m"
  shows "P c \<Longrightarrow> list_all (methodResolvable h g) (map snd ms) \<Longrightarrow>
     within {OutOfFuel} P (checkMethods chk c ms ms1 path)"
  using look
proof (induction ms arbitrary: c)
  case Nil
  then show ?case by simp
next
  case (Cons x ms)
  obtain name m0 where x: "x = (name, m0)" by (cases x)
  from Cons.prems(2) x obtain m where m0: "m0 = Some m" and r: "resolvable h g (Method.Type m)"
    by (cases m0) (auto simp: methodResolvable_def)
  have l: "map_of ms1 name = Some (Some m)"
    using Cons.prems(3) x m0 by simp
  have "within {OutOfFuel} P
     (case chk c (Method.Type m) (Method.Type m) (path @ ''.'' @ name) of
        Inl e \<Rightarrow> Inl e
      | Inr ctxt \<Rightarrow> checkMethods chk ctxt ms ms1 path)"
    by (rule within_bind) (use Cons r in \<open>auto intro: chk\<close>)
  then show ?case
    by (simp add: x m0 l)
qed

lemma selfChecking_mark [simp]: "selfChecking g es (mark c t0 t1) = selfChecking g es c"
  by (simp add: selfChecking_def)

lemma wellFormed_node:
  assumes "wellFormed h g" and "a < length h"
  shows "subtypesPresent h g (h ! a)" and "distinct (map fst (Methods (h ! a)))"
    and "Kind (h ! a) = Struct \<Longrightarrow> distinct (fieldNames (Fields (h ! a)))"
  using assms by (auto simp: wellFormed_def wellFormedAsClaimed_def list_all_length)

lemma checkStep_self:
  assumes chk: "\<And>c t p. selfChecking g es c \<Longrightarrow> resolvable h g t \<Longrightarrow>
        within {OutOfFuel} (selfChecking g es) (chk c t t p)"
    and wf: "wellFormed h g"
    and c: "selfChecking g es c"
    and t: "resolvable h g t"
  shows "within {OutOfFuel} (selfChecking g es) (checkStep chk unq h c t t path)"
proof (cases "t \<in> checked c")
  case True
  then show ?thesis using c by (simp add: checkStep_def checkResolved_def)
next
  case False
  from t obtain a where d: "Deref h g t = Inr (Some a)" and a: "a < length h"
    by (auto simp: resolvable_def split: sum.splits option.splits)
  let ?v = "h ! a"
  let ?c = "mark c t t"
  have c1: "selfChecking g es ?c" using c by simp
  note wfv = wellFormed_node [OF wf a]
  have elem: "resolvable h g (Elem ?v)" if "Kind ?v \<in> {Array, Slice, Chan, Ptr, Map}"
    using wfv(1) that unfolding subtypesPresent_def by blast
  have key: "resolvable h g (Key ?v)" if "Kind ?v = Map"
    using wfv(1) that unfolding subtypesPresent_def by blast
  have kind: "within {OutOfFuel} (selfChecking g es) (checkKind chk unq ?c ?v ?v path)"
  proof -
    consider (arr) "Kind ?v = Array \<or> Kind ?v = Slice" | (chan) "Kind ?v = Chan"
      | (ptr) "Kind ?v = Ptr" | (map) "Kind ?v = Map" | (func) "Kind ?v = Func"
      | (struct) "Kind ?v = Struct"
      | (other) "Kind ?v \<notin> {Array, Slice, Chan, Ptr, Map, Func, Struct}"
      by auto
    then show ?thesis
    proof cases
      case arr
      then show ?thesis
        using elem by (auto simp: checkKind_def intro!: chk c1)
    next
      case chan
      then show ?thesis
        using elem by (auto simp: checkKind_def intro!: chk c1)
    next
      case ptr
      then show ?thesis
        using elem by (auto simp: checkKind_def intro!: chk c1)
    next
      case map
      have "within {OutOfFuel} (selfChecking g es)
         (case chk ?c (Key ?v) (Key ?v) (path @ ''[key]'') of
           Inl e \<Rightarrow> Inl e
         | Inr ctxt \<Rightarrow> chk ctxt (Elem ?v) (Elem ?v) (path @ ''[]''))"
        using map elem key by (intro within_bind chk c1) auto
      then show ?thesis
        using map by (simp add: checkKind_def)
    next
      case func
      have ins: "list_all (resolvable h g) (In ?v)" and outs: "list_all (resolvable h g) (Out ?v)"
        using wfv(1) func unfolding subtypesPresent_def by blast+
      have "within {OutOfFuel} (selfChecking g es)
         (case checkParams chk ?c (In ?v) (In ?v) path 0 of
            Inl e \<Rightarrow> Inl e
          | Inr ctxt \<Rightarrow> checkParams chk ctxt (Out ?v) (Out ?v) path 0)"
        by (rule within_bind) (auto intro!: checkParams_self chk c1 ins outs)
      then show ?thesis
        using func by (simp add: checkKind_def checkFunc_def split: sum.splits)
    next
      case struct
      have fs: "list_all (fieldResolvable h g) (Fields ?v)"
        using wfv(1) struct unfolding subtypesPresent_def by blast
      then have nonil: "None \<notin> set (Fields ?v)"
        by (auto simp: list_all_iff fieldResolvable_def)
      have "within {OutOfFuel} (selfChecking g es) (checkFields chk unq ?c (Fields ?v) ?v path)"
      proof (rule checkFields_self [OF chk _ c1 fs])
        fix f assume "Some f \<in> set (Fields ?v)"
        then show "FieldByName ?v (Field.Name f) = Inr (Some f)"
          unfolding FieldByName_def
          using wfv(3) [OF struct] nonil by (intro fieldByName_self) (simp_all add: fieldNames_def)
      qed
      then show ?thesis
        using struct by (simp add: checkKind_def)
    next
      case other
      then show ?thesis
        using c1 by (simp add: checkKind_def)
    qed
  qed
  have ms: "list_all (methodResolvable h g) (map snd (Methods ?v))"
    using wfv(1) unfolding subtypesPresent_def by blast
  have "within {OutOfFuel} (selfChecking g es)
     (case checkKind chk unq ?c ?v ?v path of
        Inl e \<Rightarrow> Inl e
      | Inr ctxt \<Rightarrow> checkMethods chk ctxt (Methods ?v) (Methods ?v) path)"
  proof (rule within_bind [OF kind])
    fix x assume x: "selfChecking g es x"
    show "within {OutOfFuel} (selfChecking g es) (checkMethods chk x (Methods ?v) (Methods ?v) path)"
    proof (rule checkMethods_self [OF chk _ x ms])
      fix name m assume "(name, m) \<in> set (Methods ?v)"
      then show "map_of (Methods ?v) name = Some m"
        using wfv(2) by simp
    qed
  qed
  moreover have "checkStep chk unq h c t t path =
     (case checkKind chk unq ?c ?v ?v path of
        Inl e \<Rightarrow> Inl e
      | Inr ctxt \<Rightarrow> checkMethods chk ctxt (Methods ?v) (Methods ?v) path)"
    using False d a c by (simp add: checkStep_def checkResolved_def Let_def selfChecking_def ignoreNothing_def load_def)
  ultimately show ?thesis by simp
qed

lemma check_self:
  "wellFormed h g \<Longrightarrow> selfChecking g es c \<Longrightarrow> resolvable h g t \<Longrightarrow>
     within {OutOfFuel} (selfChecking g es) (check n unq h c t t path)"
proof (induction n arbitrary: c t path)
  case 0
  show ?case by simp
next
  case (Suc n)
  show ?case
    unfolding check.simps
    by (rule checkStep_self) (use Suc in auto)
qed

text \<open>
  C3, with one more condition on the graph. In a graph where every pointer the checker
  follows is resolvable, no field or method pointer is nil and no struct has two fields
  of one name, every type is compatible with itself: \<^verbatim>\<open>Check\<close> of a resolvable pointer
  against itself, with the graph on both sides and a predicate that ignores nothing,
  returns nil.
\<close>

theorem Check_self_compatible:
  assumes "wellFormed h g" and "resolvable h g t"
  shows "Check unq h g g t t ignoreNothing = Inr None"
proof -
  let ?c = "newContext g g ignoreNothing"
  have "unvisited h ?c < Suc (length h)"
    by (simp add: unvisited_def newContext_def)
  then have fuel: "check (Suc (length h)) unq h ?c t t [] \<noteq> Inl OutOfFuel"
    by (rule check_fuel_enough)
  have "selfChecking g [] ?c"
    by (simp add: selfChecking_def newContext_def)
  then have "within {OutOfFuel} (selfChecking g []) (check (Suc (length h)) unq h ?c t t [])"
    using assms by (intro check_self)
  with fuel obtain c' where "check (Suc (length h)) unq h ?c t t [] = Inr c'" and "errors c' = []"
    by (cases "check (Suc (length h)) unq h ?c t t []") (auto simp: selfChecking_def)
  then show ?thesis
    by (simp add: Check_def)
qed

theorem Check_self_compatible_witness:
  "wellFormed nodeHeap nodeInfo \<and> resolvable nodeHeap nodeInfo (Some 0)
   \<and> Check Unquote_plain nodeHeap nodeInfo nodeInfo (Some 0) (Some 0) ignoreNothing = Inr None"
proof -
  have 1: "wellFormed nodeHeap nodeInfo" by code_simp
  have 2: "resolvable nodeHeap nodeInfo (Some 0)" by code_simp
  show ?thesis
    using Check_self_compatible [OF 1 2, of Unquote_plain] 1 2 by simp
qed

text \<open>
  C3 as the specification words it fails, without the condition on field names: a struct
  description with two fields named \<^verbatim>\<open>X\<close>, one of kind \<^verbatim>\<open>int\<close> and one of kind \<^verbatim>\<open>string\<close>,
  has every pointer resolvable. Compared with itself, the second \<^verbatim>\<open>X\<close> is looked up by
  name, the lookup returns the first, and \<^verbatim>\<open>string\<close> against \<^verbatim>\<open>int\<close> is a violation.
\<close>

theorem Check_self_duplicate_field_counterexample:
  "wellFormedAsClaimed twoXHeap \<lparr>Types = []\<rparr> \<and> resolvable twoXHeap \<lparr>Types = []\<rparr> (Some 0)
   \<and> Check Unquote_plain twoXHeap \<lparr>Types = []\<rparr> \<lparr>Types = []\<rparr> (Some 0) (Some 0) ignoreNothing
       = Inr (Some \<lparr>Errors = [(''.X'', IncompatibleKinds String Int_kind)]\<rparr>)"
  by code_simp

end
